theory Spec2Isabelle
  imports Main "HOL-Library.Word" "HOL-Library.Multiset"
begin

unbundle bit_operations_syntax

section \<open>Keys and the metric\<close>

text \<open>
  \<^verbatim>\<open>typedef uint32_t bkey_t; enum { MAX_DISTANCE = 32 };\<close>
  Keys are 32-bit words.  The function \<^verbatim>\<open>distance\<close> (the variant compiled when
  \<^verbatim>\<open>HAVE_POPCNT\<close> is 0, the default) counts the bits of \<^verbatim>\<open>x ^ y\<close> by adding
  neighbouring bit fields in parallel.  Its result type is \<^verbatim>\<open>unsigned\<close>; the value is
  masked with 63, so it is read as a natural number.
\<close>

type_synonym bkey = "32 word"

definition MAX_DISTANCE :: nat where
  "MAX_DISTANCE = 32"

definition distance :: "bkey \<Rightarrow> bkey \<Rightarrow> nat" where
  "distance x y =
     (let d = x XOR y;
          d = (d AND 0x55555555) + (drop_bit 1 d AND 0x55555555);
          d = (d AND 0x33333333) + (drop_bit 2 d AND 0x33333333);
          d = (d + drop_bit 4 d) AND 0x0f0f0f0f;
          d = d + drop_bit 8 d;
          d = d + drop_bit 16 d
      in unat (d AND 63))"

text \<open>
  The specification's reading of the metric: the number of bit positions in which two keys
  differ, which is the population count of their exclusive or.
\<close>

definition popcount :: "bkey \<Rightarrow> nat" where
  "popcount w = length (filter (bit w) [0..<32])"

definition hamming :: "bkey \<Rightarrow> bkey \<Rightarrow> nat" where
  "hamming x y = length (filter (\<lambda>i. bit x i \<noteq> bit y i) [0..<32])"


section \<open>Errors\<close>

text \<open>
  The program stops in two ways that matter here: an \<^verbatim>\<open>assert\<close> that fails, and an array
  access outside the array (undefined behaviour in C).  Both are results of the model.
\<close>

datatype error = AssertFailed | OutOfBounds

section \<open>The result accumulator\<close>

text \<open>
  \<^verbatim>\<open>struct buf { bkey_t *keys; size_t n, a; }\<close>: \<open>bkeys\<close> holds the first \<open>n\<close> entries of the
  array (the keys appended so far), \<open>ba\<close> is the allocated capacity \<open>a\<close>.  \<^verbatim>\<open>addkey\<close> doubles
  the capacity (16 at first) when the array is full and stores the key at index \<open>n\<close>.
\<close>

record buf =
  bkeys :: "bkey list"
  ba :: nat

definition addkey :: "buf \<Rightarrow> bkey \<Rightarrow> buf" where
  "addkey b k =
     (let b1 = (if length (bkeys b) \<ge> ba b
                then b\<lparr>ba := (if ba b \<noteq> 0 then 2 * ba b else 16)\<rparr> else b)
      in b1\<lparr>bkeys := bkeys b1 @ [k]\<rparr>)"

text \<open>The keys a query appended to the accumulator \<open>b\<close>, given the accumulator it returned.\<close>

definition appended :: "buf \<Rightarrow> buf \<Rightarrow> bkey list" where
  "appended b b' = drop (length (bkeys b)) (bkeys b')"

text \<open>
  The loop \<^verbatim>\<open>for (i = 0; i < n; ++i) if (distance(ref, keys[i]) <= maxd) addkey(b, keys[i]);\<close>
  of \<^verbatim>\<open>query_linear\<close> and of the leaf branches of \<^verbatim>\<open>query_bk\<close> and \<^verbatim>\<open>query_vp\<close>.
\<close>

fun scan :: "buf \<Rightarrow> bkey list \<Rightarrow> bkey \<Rightarrow> nat \<Rightarrow> buf" where
  "scan b [] ref maxd = b"
| "scan b (k # ks) ref maxd =
     scan (if distance ref k \<le> maxd then addkey b k else b) ks ref maxd"

text \<open>
  Unsigned addition.  In the queries \<^verbatim>\<open>maxd\<close>, \<^verbatim>\<open>d\<close> and \<^verbatim>\<open>thr\<close> are \<^verbatim>\<open>unsigned\<close>, and a node's
  \<^verbatim>\<open>unsigned short\<close> distance is promoted before it is added: the sums wrap at \<open>2 ^ 32\<close>.
\<close>

definition uadd :: "nat \<Rightarrow> nat \<Rightarrow> nat" where
  "uadd x y = (x + y) mod 2 ^ 32"

section \<open>Linear search\<close>

record linear =
  lcount :: nat
  lkeys :: "bkey list"

definition mktree_linear :: "bkey list \<Rightarrow> nat \<Rightarrow> linear" where
  "mktree_linear keys max_linear = \<lparr>lcount = length keys, lkeys = keys\<rparr>"

definition query_linear :: "buf \<Rightarrow> linear \<Rightarrow> bkey \<Rightarrow> nat \<Rightarrow> buf \<times> nat" where
  "query_linear b root ref maxd =
     (scan b (take (lcount root) (lkeys root)) ref maxd, lcount root)"

section \<open>The distance histogram\<close>

text \<open>
  Both tree builders count the keys of a range by their distance to the first key and
  accumulate the counts:
  \<^verbatim>\<open>for (i = 0; i < n; ++i) dcnt[distance(rootkey, keys[i])]++;\<close>
  \<^verbatim>\<open>for (i = 0, a = 0; i <= MAX_DISTANCE; ++i) dcnt[i] = (a += dcnt[i]);\<close>
  The array \<^verbatim>\<open>dcnt\<close> has \<open>MAX_DISTANCE + 1\<close> entries.  A key array and its length are one
  list; sizes and counts (\<^verbatim>\<open>size_t\<close>) are natural numbers, a key array being shorter
  than \<open>2 ^ 32\<close>.
\<close>

fun dcnt_count :: "bkey \<Rightarrow> bkey list \<Rightarrow> nat list \<Rightarrow> nat list" where
  "dcnt_count rootkey [] dcnt = dcnt"
| "dcnt_count rootkey (k # ks) dcnt =
     dcnt_count rootkey ks (dcnt[distance rootkey k := dcnt ! distance rootkey k + 1])"

fun dcnt_accum :: "nat \<Rightarrow> nat list \<Rightarrow> nat list" where
  "dcnt_accum a [] = []"
| "dcnt_accum a (c # cs) = (a + c) # dcnt_accum (a + c) cs"

definition dcnt_of :: "bkey \<Rightarrow> bkey list \<Rightarrow> nat list" where
  "dcnt_of rootkey ks =
     dcnt_accum 0 (dcnt_count rootkey ks (replicate (MAX_DISTANCE + 1) 0))"

lemma dcnt_accum_mono:
  "i \<le> j \<Longrightarrow> j < length cs \<Longrightarrow> dcnt_accum a cs ! i \<le> dcnt_accum a cs ! j"
proof (induction a cs arbitrary: i j rule: dcnt_accum.induct)
  case (1 a) then show ?case by simp
next
  case (2 a c cs)
  have le: "a' \<le> dcnt_accum a' cs' ! m" if "m < length cs'" for a' cs' m
    using that
  proof (induction a' cs' arbitrary: m rule: dcnt_accum.induct)
    case (2 a c cs)
    then show ?case by (cases m) (auto intro: le_trans [OF le_add1])
  qed simp
  show ?case
  proof (cases i)
    case 0
    then show ?thesis using 2 le [of "j - 1" cs "a + c"] by (cases j) auto
  next
    case (Suc i')
    then show ?thesis using 2 by (cases j) auto
  qed
qed

lemma length_dcnt_accum: "length (dcnt_accum a cs) = length cs"
  by (induction a cs rule: dcnt_accum.induct) auto

lemma length_dcnt_count: "length (dcnt_count rootkey ks dcnt) = length dcnt"
  by (induction rootkey ks dcnt rule: dcnt_count.induct) auto

lemma length_dcnt_of: "length (dcnt_of rootkey ks) = Suc MAX_DISTANCE"
  by (simp add: dcnt_of_def length_dcnt_accum length_dcnt_count)

lemma dcnt_of_mono: "i \<le> j \<Longrightarrow> j \<le> MAX_DISTANCE \<Longrightarrow> dcnt_of rootkey ks ! i \<le> dcnt_of rootkey ks ! j"
  unfolding dcnt_of_def by (rule dcnt_accum_mono) (simp_all add: length_dcnt_count)

section \<open>BK-tree\<close>

text \<open>
  \<^verbatim>\<open>struct bktree\<close> is a tagged union: a leaf (\<^verbatim>\<open>linear\<close> set) holds \<^verbatim>\<open>count\<close> keys, an
  internal node holds its centre \<^verbatim>\<open>key\<close> and the first \<^verbatim>\<open>child\<close>; the children are linked
  through \<^verbatim>\<open>sibling\<close>, each with its \<^verbatim>\<open>distance\<close> to the centre.  The list of an internal
  node is that sibling list, a pair for each child.  The counters \<^verbatim>\<open>num_nodes\<close> and
  \<^verbatim>\<open>tree_size\<close> only feed the statistics printed by \<^verbatim>\<open>main\<close> and are left out.
\<close>

datatype bktree = BK_Leaf "bkey list" | BK_Node bkey "(nat \<times> bktree) list"

text \<open>
  The placement loop of the counting sort, \<^verbatim>\<open>tmp[--pos[distance(rootkey, keys[i])]] = keys[i]\<close>,
  with \<^verbatim>\<open>pos\<close> a copy of \<^verbatim>\<open>dcnt\<close>.  Decrementing a cursor that is 0, or writing beyond
  \<^verbatim>\<open>tmp\<close>, is an access out of bounds.
\<close>

fun bk_place :: "bkey \<Rightarrow> bkey list \<Rightarrow> bkey list \<Rightarrow> nat list \<Rightarrow> error + bkey list" where
  "bk_place rootkey [] tmp pos = Inr tmp"
| "bk_place rootkey (k # ks) tmp pos =
     (let d = distance rootkey k in
      if pos ! d = 0 \<or> length tmp \<le> pos ! d - 1 then Inl OutOfBounds
      else bk_place rootkey ks (tmp[pos ! d - 1 := k]) (pos[d := pos ! d - 1]))"

lemma length_bk_place: "bk_place rootkey ks tmp pos = Inr tmp' \<Longrightarrow> length tmp' = length tmp"
  by (induction rootkey ks tmp pos rule: bk_place.induct) (auto simp: Let_def split: if_splits)

text \<open>
  \<^verbatim>\<open>mktree_bk\<close>, and its loop over the distances \<open>1 .. MAX_DISTANCE\<close> that builds a child
  from each non-empty bucket \<^verbatim>\<open>tmp[dcnt[i-1] .. dcnt[i])\<close>.
\<close>

function mktree_bk :: "bkey list \<Rightarrow> nat \<Rightarrow> error + bktree"
  and bk_children :: "bkey list \<Rightarrow> nat list \<Rightarrow> nat \<Rightarrow> nat \<Rightarrow> error + (nat \<times> bktree) list"
where
  "mktree_bk keys max_linear =
     (if keys = [] then Inl AssertFailed
      else if length keys \<le> max_linear \<or> length keys \<le> 1 then Inr (BK_Leaf keys)
      else
        let rootkey = hd keys; ks = tl keys; n = length ks in
        if n = 0 then Inr (BK_Node rootkey [])
        else
          let dcnt = dcnt_of rootkey ks in
          if dcnt ! MAX_DISTANCE \<noteq> n then Inl AssertFailed
          else
            case bk_place rootkey ks (replicate n 0) dcnt of
              Inl e \<Rightarrow> Inl e
            | Inr tmp \<Rightarrow>
                (case bk_children tmp dcnt max_linear 1 of
                   Inl e \<Rightarrow> Inl e
                 | Inr children \<Rightarrow> Inr (BK_Node rootkey children)))"
| "bk_children tmp dcnt max_linear i =
     (if MAX_DISTANCE < i then Inr []
      else
        let off = dcnt ! (i - 1); len = dcnt ! i - off in
        if len = 0 then bk_children tmp dcnt max_linear (i + 1)
        else
          case mktree_bk (take len (drop off tmp)) max_linear of
            Inl e \<Rightarrow> Inl e
          | Inr child \<Rightarrow>
              (case bk_children tmp dcnt max_linear (i + 1) of
                 Inl e \<Rightarrow> Inl e
               | Inr children \<Rightarrow> Inr ((i, child) # children)))"
  by pat_completeness auto
termination
  apply (relation "measure (\<lambda>x. case x of
            Inl (keys, max_linear) \<Rightarrow> 40 * length keys
          | Inr (tmp, dcnt, max_linear, i) \<Rightarrow> 40 * length tmp + (34 - i))")
      apply (auto simp: MAX_DISTANCE_def dest!: length_bk_place)
  done


declare mktree_bk.simps [simp del] bk_children.simps [simp del]

text \<open>
  \<^verbatim>\<open>query_bk\<close>: \<open>bk_skip\<close> is the first loop over the children
  (\<^verbatim>\<open>for (; p && p->distance + maxd < d; p = p->sibling);\<close>), \<open>bk_visit\<close> the second
  (\<^verbatim>\<open>for (; p && p->distance <= maxd + d; p = p->sibling) nc += query_bk(b, p, ref, maxd);\<close>).
\<close>

fun bk_skip :: "(nat \<times> bktree) list \<Rightarrow> nat \<Rightarrow> nat \<Rightarrow> (nat \<times> bktree) list" where
  "bk_skip [] maxd d = []"
| "bk_skip (p # ps) maxd d = (if uadd (fst p) maxd < d then bk_skip ps maxd d else p # ps)"

lemma size_bk_skip: "size_list f (bk_skip ps maxd d) \<le> size_list f ps"
  by (induction ps) auto

function query_bk :: "buf \<Rightarrow> bktree \<Rightarrow> bkey \<Rightarrow> nat \<Rightarrow> buf \<times> nat"
  and bk_visit :: "buf \<Rightarrow> (nat \<times> bktree) list \<Rightarrow> bkey \<Rightarrow> nat \<Rightarrow> nat \<Rightarrow> nat \<Rightarrow> buf \<times> nat"
where
  "query_bk b (BK_Leaf keys) ref maxd = (scan b keys ref maxd, length keys)"
| "query_bk b (BK_Node key child) ref maxd =
     (let d = distance key ref;
          b1 = (if d \<le> maxd then addkey b key else b);
          p = bk_skip child maxd d
      in bk_visit b1 p ref maxd d 1)"
| "bk_visit b [] ref maxd d nc = (b, nc)"
| "bk_visit b (p # ps) ref maxd d nc =
     (if fst p \<le> uadd maxd d
      then (case query_bk b (snd p) ref maxd of
              (b', n) \<Rightarrow> bk_visit b' ps ref maxd d (nc + n))
      else (b, nc))"
  by pat_completeness auto
termination
  apply (relation "measure (\<lambda>x. case x of
            Inl (b, t, ref, maxd) \<Rightarrow> size t
          | Inr (b, ps, ref, maxd, d, nc) \<Rightarrow> size_list (size_prod (\<lambda>_. 0) size) ps)")
     apply (auto simp: less_Suc_eq_le size_bk_skip)
  done

section \<open>VP-tree\<close>

text \<open>
  \<^verbatim>\<open>struct vptree\<close>: a leaf as before, or an internal node with \<^verbatim>\<open>threshold\<close>,
  \<^verbatim>\<open>vantage\<close> and the children \<^verbatim>\<open>near\<close> and \<^verbatim>\<open>far\<close>, each of which may be \<^verbatim>\<open>NULL\<close>.
\<close>

datatype vptree = VP_Leaf "bkey list" | VP_Node nat bkey "vptree option" "vptree option"

text \<open>
  The choice of the threshold.  \<open>vp_scan\<close> is the loop
  \<^verbatim>\<open>for (k = 1; k <= MAX_DISTANCE; ++k) if (dcnt[k] > median) break;\<close>
  which leaves \<open>k = MAX_DISTANCE + 1\<close> when no entry exceeds the median.  The test that
  follows, \<^verbatim>\<open>k != 1 && median - dcnt[k-1] <= dcnt[k] - median\<close>, reads \<^verbatim>\<open>dcnt[k]\<close>: for
  \<open>k = MAX_DISTANCE + 1\<close> that is outside the array.
\<close>

function vp_scan :: "nat list \<Rightarrow> nat \<Rightarrow> nat \<Rightarrow> nat" where
  "vp_scan dcnt median k =
     (if k \<le> MAX_DISTANCE
      then (if dcnt ! k > median then k else vp_scan dcnt median (k + 1))
      else k)"
  by pat_completeness auto
termination
  by (relation "measure (\<lambda>(dcnt, median, k). Suc MAX_DISTANCE - k)") auto

declare vp_scan.simps [simp del]

definition vp_threshold :: "nat list \<Rightarrow> nat \<Rightarrow> error + nat" where
  "vp_threshold dcnt n =
     (let median = dcnt ! 0 + (n - dcnt ! 0) div 2;
          k = vp_scan dcnt median 1
      in if MAX_DISTANCE < k then Inl OutOfBounds
         else if k \<noteq> 1 \<and> median - dcnt ! (k - 1) \<le> dcnt ! k - median then Inr (k - 1)
         else Inr k)"

text \<open>
  The partition loop: keys equal to the vantage are skipped, the others are written at
  the cursors \<^verbatim>\<open>inear\<close> and \<^verbatim>\<open>ifar\<close> of \<^verbatim>\<open>tmp\<close>.
\<close>

fun vp_place :: "bkey \<Rightarrow> nat \<Rightarrow> bkey list \<Rightarrow> bkey list \<Rightarrow> nat \<Rightarrow> nat
    \<Rightarrow> error + (bkey list \<times> nat \<times> nat)" where
  "vp_place rootkey k [] tmp inear ifar = Inr (tmp, inear, ifar)"
| "vp_place rootkey k (x # xs) tmp inear ifar =
     (if x = rootkey then vp_place rootkey k xs tmp inear ifar
      else if distance rootkey x \<le> k
      then (if length tmp \<le> inear then Inl OutOfBounds
            else vp_place rootkey k xs (tmp[inear := x]) (inear + 1) ifar)
      else (if length tmp \<le> ifar then Inl OutOfBounds
            else vp_place rootkey k xs (tmp[ifar := x]) inear (ifar + 1)))"

lemma length_vp_place:
  "vp_place rootkey k xs tmp inear ifar = Inr (tmp', inear', ifar') \<Longrightarrow> length tmp' = length tmp"
  by (induction rootkey k xs tmp inear ifar rule: vp_place.induct) (auto split: if_splits)

lemma vp_threshold_le:
  assumes "vp_threshold dcnt n = Inr k"
  shows "k \<le> MAX_DISTANCE"
proof -
  define s where "s = vp_scan dcnt (dcnt ! 0 + (n - dcnt ! 0) div 2) 1"
  have "\<not> MAX_DISTANCE < s \<and> (k = s - 1 \<or> k = s)"
    using assms [unfolded vp_threshold_def Let_def, folded s_def]
    by (simp split: if_splits)
  then show ?thesis by auto
qed

function mktree_vp :: "bkey list \<Rightarrow> nat \<Rightarrow> error + vptree" where
  "mktree_vp keys max_linear =
     (if keys = [] then Inl AssertFailed
      else if length keys \<le> max_linear \<or> length keys \<le> 1 then Inr (VP_Leaf keys)
      else
        let rootkey = hd keys; ks = tl keys; n = length ks in
        if n = 0 then Inr (VP_Node 0 rootkey None None)
        else
          let dcnt = dcnt_of rootkey ks in
          if dcnt ! MAX_DISTANCE \<noteq> n then Inl AssertFailed
          else
            case vp_threshold dcnt n of
              Inl e \<Rightarrow> Inl e
            | Inr k \<Rightarrow>
                let nnear = dcnt ! k - dcnt ! 0; nfar = n - dcnt ! k in
                case vp_place rootkey k ks (replicate (nnear + nfar) 0) 0 nnear of
                  Inl e \<Rightarrow> Inl e
                | Inr (tmp, inear, ifar) \<Rightarrow>
                    if inear \<noteq> nnear \<or> ifar \<noteq> nnear + nfar then Inl AssertFailed
                    else
                      case (if nnear \<noteq> 0
                            then map_sum id Some (mktree_vp (take nnear tmp) max_linear)
                            else Inr None) of
                        Inl e \<Rightarrow> Inl e
                      | Inr near \<Rightarrow>
                          (case (if nfar \<noteq> 0
                                 then map_sum id Some (mktree_vp (take nfar (drop nnear tmp)) max_linear)
                                 else Inr None) of
                             Inl e \<Rightarrow> Inl e
                           | Inr far \<Rightarrow> Inr (VP_Node k rootkey near far)))"
  by pat_completeness auto
termination
proof (relation "measure (\<lambda>(keys, max_linear). length keys)", goal_cases)
  case 1
  show ?case by simp
next
  case (2 keys max_linear rootkey ks n dcnt k nnear nfar r tmp r' inear ifar)
  have "dcnt ! k \<le> dcnt ! MAX_DISTANCE"
    unfolding 2 by (rule dcnt_of_mono) (use 2 in \<open>auto dest: vp_threshold_le\<close>)
  then have "nnear \<le> n" using 2 by auto
  then show ?case using 2 by (cases keys) auto
next
  case (3 keys max_linear rootkey ks n dcnt k nnear nfar r tmp r' inear ifar)
  then show ?case by (cases keys) auto
qed

declare mktree_vp.simps [simp del]

text \<open>
  \<^verbatim>\<open>query_vp\<close>; \<open>vp_sub\<close> is \<^verbatim>\<open>if (child) nc += query_vp(b, child, ref, maxd);\<close> for a
  child that may be \<^verbatim>\<open>NULL\<close>.
\<close>

function query_vp :: "buf \<Rightarrow> vptree \<Rightarrow> bkey \<Rightarrow> nat \<Rightarrow> buf \<times> nat"
  and vp_sub :: "buf \<times> nat \<Rightarrow> vptree option \<Rightarrow> bkey \<Rightarrow> nat \<Rightarrow> buf \<times> nat"
where
  "query_vp b (VP_Leaf keys) ref maxd = (scan b keys ref maxd, length keys)"
| "query_vp b (VP_Node threshold vantage near far) ref maxd =
     (let d = distance vantage ref; thr = threshold;
          r = (if d \<le> uadd maxd thr
               then (case vp_sub (b, 1) near ref maxd of
                       (b1, nc) \<Rightarrow> (if d \<le> maxd then addkey b1 vantage else b1, nc))
               else (b, 1))
      in if thr < uadd d maxd then vp_sub r far ref maxd else r)"
| "vp_sub r None ref maxd = r"
| "vp_sub r (Some t) ref maxd =
     (case query_vp (fst r) t ref maxd of (b', n) \<Rightarrow> (b', snd r + n))"
  by pat_completeness auto
termination
  by (relation "measure (\<lambda>x. case x of
            Inl (b, t, ref, maxd) \<Rightarrow> 2 * size t
          | Inr (r, ot, ref, maxd) \<Rightarrow> (case ot of None \<Rightarrow> 0 | Some t \<Rightarrow> 2 * size t + 1))")
     (simp_all split: option.splits)


section \<open>Notions used to state the properties\<close>

text \<open>
  The keys stored in a tree, in the order in which a query meets them: \<open>bk_keys\<close> and
  \<open>vp_keys\<close> list the centres (vantages) of the internal nodes and the keys of the leaves;
  \<open>bk_centres\<close>, \<open>vp_vantages\<close> list the former, \<open>bk_leaves\<close>, \<open>vp_leaves\<close> the key ranges of the
  leaves.
\<close>

fun bk_keys :: "bktree \<Rightarrow> bkey list" where
  "bk_keys (BK_Leaf keys) = keys"
| "bk_keys (BK_Node key child) = key # concat (map (\<lambda>p. bk_keys (snd p)) child)"

fun bk_centres :: "bktree \<Rightarrow> bkey list" where
  "bk_centres (BK_Leaf keys) = []"
| "bk_centres (BK_Node key child) = key # concat (map (\<lambda>p. bk_centres (snd p)) child)"

fun bk_leaves :: "bktree \<Rightarrow> bkey list list" where
  "bk_leaves (BK_Leaf keys) = [keys]"
| "bk_leaves (BK_Node key child) = concat (map (\<lambda>p. bk_leaves (snd p)) child)"

fun vp_keys :: "vptree \<Rightarrow> bkey list" where
  "vp_keys (VP_Leaf keys) = keys"
| "vp_keys (VP_Node threshold vantage near far) =
     (case near of None \<Rightarrow> [] | Some t \<Rightarrow> vp_keys t) @ [vantage]
     @ (case far of None \<Rightarrow> [] | Some t \<Rightarrow> vp_keys t)"

fun vp_vantages :: "vptree \<Rightarrow> bkey list" where
  "vp_vantages (VP_Leaf keys) = []"
| "vp_vantages (VP_Node threshold vantage near far) =
     (case near of None \<Rightarrow> [] | Some t \<Rightarrow> vp_vantages t) @ [vantage]
     @ (case far of None \<Rightarrow> [] | Some t \<Rightarrow> vp_vantages t)"

fun vp_leaves :: "vptree \<Rightarrow> bkey list list" where
  "vp_leaves (VP_Leaf keys) = [keys]"
| "vp_leaves (VP_Node threshold vantage near far) =
     (case near of None \<Rightarrow> [] | Some t \<Rightarrow> vp_leaves t)
     @ (case far of None \<Rightarrow> [] | Some t \<Rightarrow> vp_leaves t)"

text \<open>
  The invariants of the data model.  In a BK-tree the children of a node are ordered by
  strictly increasing distance, a distance lies between 1 and \<open>MAX_DISTANCE\<close>, and every key
  stored below a child has exactly the child's distance to the centre.  In a VP-tree the
  keys below \<^verbatim>\<open>near\<close> lie in the closed ball of radius \<^verbatim>\<open>threshold\<close> around the vantage, the keys
  below \<^verbatim>\<open>far\<close> outside it.
\<close>

fun bk_wf :: "bktree \<Rightarrow> bool" where
  "bk_wf (BK_Leaf keys) = True"
| "bk_wf (BK_Node key child) =
     (sorted_wrt (<) (map fst child) \<and>
      (\<forall>p\<in>set child. 1 \<le> fst p \<and> fst p \<le> MAX_DISTANCE
         \<and> (\<forall>k\<in>set (bk_keys (snd p)). distance key k = fst p) \<and> bk_wf (snd p)))"

fun vp_wf :: "vptree \<Rightarrow> bool" where
  "vp_wf (VP_Leaf keys) = True"
| "vp_wf (VP_Node threshold vantage near far) =
     (threshold \<le> MAX_DISTANCE
      \<and> (case near of None \<Rightarrow> True
          | Some t \<Rightarrow> (\<forall>k\<in>set (vp_keys t). distance vantage k \<le> threshold) \<and> vp_wf t)
      \<and> (case far of None \<Rightarrow> True
          | Some t \<Rightarrow> (\<forall>k\<in>set (vp_keys t). threshold < distance vantage k) \<and> vp_wf t))"

text \<open>
  The keys within distance \<open>maxd\<close> of \<open>ref\<close>; the keys a query appends; the empty accumulator
  (\<^verbatim>\<open>struct buf q = { 0, 0, 0 }\<close> in \<^verbatim>\<open>main\<close>).
\<close>

definition matches :: "bkey \<Rightarrow> nat \<Rightarrow> bkey list \<Rightarrow> bkey list" where
  "matches ref maxd ks = filter (\<lambda>k. distance ref k \<le> maxd) ks"

definition linear_result :: "buf \<Rightarrow> bkey list \<Rightarrow> nat \<Rightarrow> bkey \<Rightarrow> nat \<Rightarrow> bkey list" where
  "linear_result b keys max_linear ref maxd =
     appended b (fst (query_linear b (mktree_linear keys max_linear) ref maxd))"

definition bk_result :: "buf \<Rightarrow> bktree \<Rightarrow> bkey \<Rightarrow> nat \<Rightarrow> bkey list" where
  "bk_result b t ref maxd = appended b (fst (query_bk b t ref maxd))"

definition vp_result :: "buf \<Rightarrow> vptree \<Rightarrow> bkey \<Rightarrow> nat \<Rightarrow> bkey list" where
  "vp_result b t ref maxd = appended b (fst (query_vp b t ref maxd))"

definition b0 :: buf where "b0 = \<lparr>bkeys = [], ba = 0\<rparr>"

text \<open>
  A traversal that recurses into every child of a list, in order, and the children whose
  bucket distance \<open>c\<close> satisfies \<open>d - maxd \<le> c \<le> d + maxd\<close>.
\<close>

fun bk_recurse :: "buf \<Rightarrow> (nat \<times> bktree) list \<Rightarrow> bkey \<Rightarrow> nat \<Rightarrow> nat \<Rightarrow> buf \<times> nat" where
  "bk_recurse b [] ref maxd nc = (b, nc)"
| "bk_recurse b (p # ps) ref maxd nc =
     (case query_bk b (snd p) ref maxd of (b', n) \<Rightarrow> bk_recurse b' ps ref maxd (nc + n))"

definition bk_in_range :: "nat \<Rightarrow> nat \<Rightarrow> nat \<times> bktree \<Rightarrow> bool" where
  "bk_in_range d maxd p \<longleftrightarrow> int d - int maxd \<le> int (fst p) \<and> int (fst p) \<le> int d + int maxd"

text \<open>The size of a leaf: at least one key, and at most \<open>max_linear\<close> keys unless it holds one.\<close>

definition leaf_ok :: "nat \<Rightarrow> bkey list \<Rightarrow> bool" where
  "leaf_ok max_linear l \<longleftrightarrow> 1 \<le> length l \<and> (length l \<le> max_linear \<or> length l = 1)"

section \<open>The bit count computed by \<open>distance\<close>\<close>

text \<open>
  A number written with digits of \<open>k\<close> bit_list; the fields at even positions; the sums of
  neighbouring fields.  Each step of \<open>distance\<close> turns the fields of \<open>k\<close> bit_list into
  fields of \<open>2 * k\<close> bit_list that hold the sums.
\<close>

fun field_val :: "nat \<Rightarrow> nat list \<Rightarrow> nat" where
  "field_val k [] = 0"
| "field_val k (d # ds) = d + 2 ^ k * field_val k ds"

fun even_fields :: "nat list \<Rightarrow> nat list" where
  "even_fields [] = []"
| "even_fields [a] = [a]"
| "even_fields (a # b # r) = a # even_fields r"

lemma and_split:
  fixes a b m m' :: nat
  assumes "a < 2 ^ k" "m < 2 ^ k"
  shows "(a + 2 ^ k * b) AND (m + 2 ^ k * m') = (a AND m) + 2 ^ k * (b AND m')"
proof -
  let ?l = "(a + 2 ^ k * b) AND (m + 2 ^ k * m')"
  have "take_bit k ?l = take_bit k (a + 2 ^ k * b) AND take_bit k (m + 2 ^ k * m')"
    by (rule take_bit_and)
  also have "take_bit k (a + 2 ^ k * b) = a" using assms by (simp add: take_bit_eq_mod)
  also have "take_bit k (m + 2 ^ k * m') = m" using assms by (simp add: take_bit_eq_mod)
  finally have t: "take_bit k ?l = a AND m" .
  have "drop_bit k ?l = drop_bit k (a + 2 ^ k * b) AND drop_bit k (m + 2 ^ k * m')"
    by (rule drop_bit_and)
  also have "drop_bit k (a + 2 ^ k * b) = b" using assms by (simp add: drop_bit_eq_div)
  also have "drop_bit k (m + 2 ^ k * m') = m'" using assms by (simp add: drop_bit_eq_div)
  finally have d: "drop_bit k ?l = b AND m'" .
  have "push_bit k (drop_bit k ?l) + take_bit k ?l = ?l"
    by (rule bits_ident)
  then have "push_bit k (b AND m') + (a AND m) = ?l"
    by (simp only: t d)
  then have "?l = (b AND m') * 2 ^ k + (a AND m)"
    by (simp only: push_bit_eq_mult)
  then show ?thesis by (simp only: mult.commute add.commute)
qed

lemma and_low: "(x::nat) AND (2 ^ k - 1) = x mod 2 ^ k"
proof -
  have "x AND (2 ^ k - 1) = x AND mask k" by (simp only: mask_eq_exp_minus_1)
  also have "\<dots> = take_bit k x" by (simp only: take_bit_eq_mask)
  finally show ?thesis by (simp add: take_bit_eq_mod)
qed

lemma val_bound: "\<forall>d\<in>set ds. d < 2 ^ k \<Longrightarrow> field_val k ds < 2 ^ (k * length ds)"
proof (induction ds)
  case Nil then show ?case by simp
next
  case (Cons d ds)
  then have a: "d < 2 ^ k" and b: "field_val k ds < 2 ^ (k * length ds)" by auto
  from b have "field_val k ds + 1 \<le> 2 ^ (k * length ds)" by simp
  then have "2 ^ k * (field_val k ds + 1) \<le> 2 ^ k * 2 ^ (k * length ds)" by (rule mult_le_mono2)
  then have "2 ^ k * field_val k ds + 2 ^ k \<le> (2::nat) ^ (k + k * length ds)"
    by (simp add: power_add)
  with a show ?case by simp
qed

lemma and_evens:
  assumes m: "m = 2 ^ k - 1"
  shows "\<forall>d\<in>set ds. d < 2 ^ k \<Longrightarrow> length ds \<le> 2 * n \<Longrightarrow>
   field_val k ds AND field_val (2 * k) (replicate n m) = field_val (2 * k) (even_fields ds)"
proof (induction ds arbitrary: n rule: even_fields.induct)
  case 1 then show ?case by simp
next
  case (2 a)
  then obtain n' where n: "n = Suc n'" by (cases n) auto
  from 2 have a: "a < 2 ^ k" by simp
  have kk: "(2::nat) ^ k \<le> 2 ^ (2 * k)" by (rule power_increasing) simp_all
  have a2: "a < 2 ^ (2 * k)" by (rule less_le_trans [OF a kk])
  have "m < 2 ^ k" unfolding m by simp
  then have m2: "m < 2 ^ (2 * k)" by (rule less_le_trans [OF _ kk])
  have "(a + 2 ^ (2 * k) * 0) AND (m + 2 ^ (2 * k) * field_val (2 * k) (replicate n' m))
     = (a AND m) + 2 ^ (2 * k) * (0 AND field_val (2 * k) (replicate n' m))"
    by (rule and_split [OF a2 m2])
  moreover have "a AND m = a" using a unfolding m
    by (simp only: and_low mod_less)
  ultimately show ?case by (simp add: n)
next
  case (3 a b r)
  then obtain n' where n: "n = Suc n'" by (cases n) auto
  from 3 have a: "a < 2 ^ k" and b: "b < 2 ^ k" by simp_all
  have kk: "(2::nat) ^ k \<le> 2 ^ (2 * k)" by (rule power_increasing) simp_all
  have ab: "a + 2 ^ k * b < 2 ^ (2 * k)"
    using val_bound [of "[a, b]" k] a b by (simp add: mult_2)
  have "m < 2 ^ k" unfolding m by simp
  then have m2: "m < 2 ^ (2 * k)" by (rule less_le_trans [OF _ kk])
  have ih: "field_val k r AND field_val (2 * k) (replicate n' m) = field_val (2 * k) (even_fields r)"
    using 3 n by simp
  have e: "((a + 2 ^ k * b) + 2 ^ (2 * k) * field_val k r) AND (m + 2 ^ (2 * k) * field_val (2 * k) (replicate n' m))
     = ((a + 2 ^ k * b) AND m) + 2 ^ (2 * k) * (field_val k r AND field_val (2 * k) (replicate n' m))"
    by (rule and_split [OF ab m2])
  have l: "(a + 2 ^ k * b) AND m = a" using a unfolding m
    by (simp add: and_low del: One_nat_def)
  have v: "field_val k (a # b # r) = (a + 2 ^ k * b) + 2 ^ (2 * k) * field_val k r"
    by (simp add: algebra_simps power2_eq_square power_mult)
  have "field_val k (a # b # r) AND field_val (2 * k) (replicate n m)
      = ((a + 2 ^ k * b) + 2 ^ (2 * k) * field_val k r) AND (m + 2 ^ (2 * k) * field_val (2 * k) (replicate n' m))"
    unfolding v n by simp
  also have "\<dots> = a + 2 ^ (2 * k) * field_val (2 * k) (even_fields r)"
    unfolding e l ih ..
  finally show ?case by simp
qed

lemma drop_bit_val: "\<forall>d\<in>set ds. d < 2 ^ k \<Longrightarrow> drop_bit k (field_val k ds) = field_val k (tl ds)"
  by (cases ds) (simp_all add: drop_bit_eq_div)


fun pair_sums :: "nat list \<Rightarrow> nat list" where
  "pair_sums [] = []"
| "pair_sums [a] = [a]"
| "pair_sums (a # b # r) = (a + b) # pair_sums r"

fun field_adds :: "nat list \<Rightarrow> nat list \<Rightarrow> nat list" where
  "field_adds [] ys = ys"
| "field_adds xs [] = xs"
| "field_adds (x # xs) (y # ys) = (x + y) # field_adds xs ys"

fun bit_list :: "nat \<Rightarrow> nat \<Rightarrow> nat list" where
  "bit_list 0 v = []"
| "bit_list (Suc n) v = v mod 2 # bit_list n (v div 2)"

lemma val_adds: "field_val k xs + field_val k ys = field_val k (field_adds xs ys)"
proof (induction xs ys rule: field_adds.induct)
  case (3 x xs y ys)
  have "field_val k (x # xs) + field_val k (y # ys) = (x + y) + 2 ^ k * (field_val k xs + field_val k ys)"
    by (simp add: algebra_simps)
  then show ?case by (simp only: 3 field_adds.simps field_val.simps)
qed simp_all

lemma evens_adds_tl: "even_fields (field_adds ds (tl ds)) = pair_sums ds"
proof (induction ds rule: pair_sums.induct)
  case (3 a b r)
  then show ?case by (cases r) simp_all
qed simp_all

lemma sum_list_pairs: "sum_list (pair_sums ds) = sum_list ds"
  by (induction ds rule: pair_sums.induct) simp_all

lemma length_pairs: "length (pair_sums ds) = (length ds + 1) div 2"
  by (induction ds rule: pair_sums.induct) simp_all

lemma pairs_bound: "\<forall>d\<in>set ds. d \<le> c \<Longrightarrow> \<forall>d\<in>set (pair_sums ds). d \<le> 2 * c"
  by (induction ds rule: pair_sums.induct) auto

lemma adds_tl_bound: "\<forall>d\<in>set ds. d \<le> c \<Longrightarrow> \<forall>d\<in>set (field_adds ds (tl ds)). d \<le> 2 * c"
proof (induction ds rule: pair_sums.induct)
  case (3 a b r)
  then show ?case by (cases r) auto
qed auto

lemma length_adds_tl: "length (field_adds ds (tl ds)) = length ds"
proof (induction ds rule: pair_sums.induct)
  case (3 a b r)
  then show ?case by (cases r) auto
qed auto

lemma val_bits: "v < 2 ^ n \<Longrightarrow> field_val 1 (bit_list n v) = v"
proof (induction n arbitrary: v)
  case 0 then show ?case by simp
next
  case (Suc n)
  then have "v div 2 < 2 ^ n" by auto
  then have "field_val 1 (bit_list n (v div 2)) = v div 2" by (rule Suc.IH)
  then show ?case by simp
qed

lemma bits_bound: "\<forall>d\<in>set (bit_list n v). d \<le> 1"
  by (induction n arbitrary: v) auto

lemma length_bits: "length (bit_list n v) = n"
  by (induction n arbitrary: v) auto

lemma sum_list_bits: "sum_list (bit_list n v) = length (filter (bit v) [0..<n])"
proof (induction n arbitrary: v)
  case 0 then show ?case by simp
next
  case (Suc n)
  have "filter (bit v) [0..<Suc n] = filter (bit v) (0 # map Suc [0..<n])"
    by (simp only: upt_conv_Cons [of 0 "Suc n"] map_Suc_upt zero_less_Suc)
  also have "length \<dots> = (if bit v 0 then 1 else 0) + length (filter (bit (v div 2)) [0..<n])"
    by (simp add: filter_map comp_def bit_Suc)
  finally show ?case using Suc.IH [of "v div 2"]
    by (simp add: bit_0 odd_iff_mod_2_eq_one)
qed


lemma adds_evens_tl: "field_adds (even_fields ds) (even_fields (tl ds)) = pair_sums ds"
proof (induction ds rule: pair_sums.induct)
  case (3 a b r)
  then show ?case by (cases r) simp_all
qed simp_all

lemma swar_add_nat:
  assumes d: "\<forall>d\<in>set ds. d < 2 ^ k" and l: "length ds \<le> 2 * n" and m: "m = 2 ^ k - 1"
  shows "(field_val k ds AND field_val (2 * k) (replicate n m))
         + (drop_bit k (field_val k ds) AND field_val (2 * k) (replicate n m)) = field_val (2 * k) (pair_sums ds)"
proof -
  have 1: "field_val k ds AND field_val (2 * k) (replicate n m) = field_val (2 * k) (even_fields ds)"
    using d l by (rule and_evens [OF m])
  have dt: "\<forall>d\<in>set (tl ds). d < 2 ^ k" using d by (cases ds) simp_all
  have lt: "length (tl ds) \<le> 2 * n" using l by simp
  have 2: "drop_bit k (field_val k ds) AND field_val (2 * k) (replicate n m) = field_val (2 * k) (even_fields (tl ds))"
    using dt lt by (simp only: drop_bit_val [OF d] and_evens [OF m])
  show ?thesis by (simp only: 1 2 val_adds adds_evens_tl)
qed

definition swar1 :: "nat \<Rightarrow> nat" where
  "swar1 v = ((v AND 0x55555555) + (drop_bit 1 v AND 0x55555555)) mod 2 ^ 32"
definition swar2 :: "nat \<Rightarrow> nat" where
  "swar2 v = ((v AND 0x33333333) + (drop_bit 2 v AND 0x33333333)) mod 2 ^ 32"
definition swar3 :: "nat \<Rightarrow> nat" where
  "swar3 v = ((v + drop_bit 4 v) mod 2 ^ 32) AND 0x0f0f0f0f"
definition swar4 :: "nat \<Rightarrow> nat" where
  "swar4 v = (v + drop_bit 8 v) mod 2 ^ 32"
definition swar5 :: "nat \<Rightarrow> nat" where
  "swar5 v = (v + drop_bit 16 v) mod 2 ^ 32"

lemma distance_steps: "distance x y = swar5 (swar4 (swar3 (swar2 (swar1 (unat (x XOR y)))))) AND 63"
proof -
  define w1 :: "32 word \<Rightarrow> 32 word" where "w1 = (\<lambda>d. (d AND 0x55555555) + (drop_bit 1 d AND 0x55555555))"
  define w2 :: "32 word \<Rightarrow> 32 word" where "w2 = (\<lambda>d. (d AND 0x33333333) + (drop_bit 2 d AND 0x33333333))"
  define w3 :: "32 word \<Rightarrow> 32 word" where "w3 = (\<lambda>d. (d + drop_bit 4 d) AND 0x0f0f0f0f)"
  define w4 :: "32 word \<Rightarrow> 32 word" where "w4 = (\<lambda>d. d + drop_bit 8 d)"
  define w5 :: "32 word \<Rightarrow> 32 word" where "w5 = (\<lambda>d. d + drop_bit 16 d)"
  have d: "distance x y = unat (w5 (w4 (w3 (w2 (w1 (x XOR y))))) AND 63)"
    by (simp only: distance_def Let_def w1_def w2_def w3_def w4_def w5_def)
  have 1: "unat (w1 d) = swar1 (unat d)" for d
    by (simp add: w1_def swar1_def unat_word_ariths unsigned_and_eq unat_drop_bit_eq)
  have 2: "unat (w2 d) = swar2 (unat d)" for d
    by (simp add: w2_def swar2_def unat_word_ariths unsigned_and_eq unat_drop_bit_eq)
  have 3: "unat (w3 d) = swar3 (unat d)" for d
    by (simp add: w3_def swar3_def unat_word_ariths unsigned_and_eq unat_drop_bit_eq)
  have 4: "unat (w4 d) = swar4 (unat d)" for d
    by (simp add: w4_def swar4_def unat_word_ariths unsigned_and_eq unat_drop_bit_eq)
  have 5: "unat (w5 d) = swar5 (unat d)" for d
    by (simp add: w5_def swar5_def unat_word_ariths unsigned_and_eq unat_drop_bit_eq)
  have 6: "unat (d AND 63) = unat d AND 63" for d :: "32 word"
    by (simp add: unsigned_and_eq)
  show ?thesis by (simp only: d 1 2 3 4 5 6)
qed

lemma rep16: "replicate 16 x = [x,x,x,x,x,x,x,x,x,x,x,x,x,x,x,x]"
  by (simp add: numeral_eq_Suc)
lemma rep8: "replicate 8 x = [x,x,x,x,x,x,x,x]"
  by (simp add: numeral_eq_Suc)
lemma rep4: "replicate 4 x = [x,x,x,x]"
  by (simp add: numeral_eq_Suc)

lemma mask_vals:
  "field_val 2 (replicate 16 1) = 0x55555555"
  "field_val 4 (replicate 8 3) = 0x33333333"
  "field_val 8 (replicate 4 15) = 0x0f0f0f0f"
  unfolding rep16 rep8 rep4 by simp_all

lemma tail_sum:
  fixes r0 r1 r2 r3 :: nat
  assumes "r0 \<le> 8" "r1 \<le> 8" "r2 \<le> 8" "r3 \<le> 8"
    and "s3 = r0 + 256 * r1 + 65536 * r2 + 16777216 * r3"
    and "s4 = (s3 + s3 div 256) mod 4294967296"
    and "s5 = (s4 + s4 div 65536) mod 4294967296"
  shows "s5 mod 64 = r0 + r1 + r2 + r3"
proof -
  have a: "s3 div 256 = r1 + 256 * r2 + 65536 * r3" using assms by simp
  have b: "s4 = (r0 + r1) + 256 * (r1 + r2) + 65536 * (r2 + r3) + 16777216 * r3"
    using assms unfolding a by simp
  have c: "s4 div 65536 = (r2 + r3) + 256 * r3" using assms unfolding b by simp
  have d: "s5 = (r0 + r1 + r2 + r3) + 256 * (r1 + r2 + r3) + 65536 * (r2 + r3) + 16777216 * r3"
    using assms(1-4,7) unfolding b c by simp
  have "s5 = (r0 + r1 + r2 + r3) + 64 * (4 * (r1 + r2 + r3) + 1024 * (r2 + r3) + 262144 * r3)"
    unfolding d by simp
  then have "s5 mod 64 = (r0 + r1 + r2 + r3) mod 64"
    by (simp only: mod_mult_self2)
  then show ?thesis using assms(1-4) by simp
qed

lemma le_imp_less_pow: "\<forall>d\<in>set ds. d \<le> c \<Longrightarrow> c < 2 ^ k \<Longrightarrow> \<forall>d\<in>set ds. d < (2::nat) ^ k"
  by (meson le_less_trans)

lemma swar_popcount:
  assumes v: "v < 2 ^ 32"
  shows "swar5 (swar4 (swar3 (swar2 (swar1 v)))) AND 63 = sum_list (bit_list 32 v)"
proof -
  define ds where "ds = bit_list 32 v"
  define q1 where "q1 = pair_sums ds"
  define q2 where "q2 = pair_sums q1"
  define q3 where "q3 = pair_sums q2"
  have vd: "v = field_val 1 ds" unfolding ds_def by (rule val_bits [OF v, symmetric])
  have b0: "\<forall>d\<in>set ds. d \<le> 1" unfolding ds_def by (rule bits_bound)
  have l0: "length ds = 32" unfolding ds_def by (rule length_bits)
  have b1: "\<forall>d\<in>set q1. d \<le> 2" and l1: "length q1 = 16"
    using pairs_bound [OF b0] l0 by (simp_all add: q1_def length_pairs)
  have b2: "\<forall>d\<in>set q2. d \<le> 4" and l2: "length q2 = 8"
    using pairs_bound [OF b1] l1 by (simp_all add: q2_def length_pairs)
  have b3: "\<forall>d\<in>set q3. d \<le> 8" and l3: "length q3 = 4"
    using pairs_bound [OF b2] l2 by (simp_all add: q3_def length_pairs)
  have s: "sum_list q3 = sum_list ds"
    by (simp add: q3_def q2_def q1_def sum_list_pairs)
  \<comment> \<open>first layer: 16 two-bit fields\<close>
  have d0: "\<forall>d\<in>set ds. d < 2 ^ 1" by (rule le_imp_less_pow [OF b0]) simp
  have "(field_val 1 ds AND field_val (2 * 1) (replicate 16 1))
         + (drop_bit 1 (field_val 1 ds) AND field_val (2 * 1) (replicate 16 1)) = field_val (2 * 1) (pair_sums ds)"
    by (rule swar_add_nat [OF d0]) (simp_all add: l0)
  then have e1: "(v AND 0x55555555) + (drop_bit 1 v AND 0x55555555) = field_val 2 q1"
    by (simp add: mask_vals vd q1_def del: One_nat_def)
  have d1: "\<forall>d\<in>set q1. d < 2 ^ 2" by (rule le_imp_less_pow [OF b1]) simp
  have "field_val 2 q1 < 2 ^ (2 * length q1)" by (rule val_bound [OF d1])
  then have v1: "field_val 2 q1 < 2 ^ 32" by (simp add: l1)
  have 1: "swar1 v = field_val 2 q1" using v1 by (simp add: swar1_def e1 del: One_nat_def)
  \<comment> \<open>second layer: 8 four-bit fields\<close>
  have "(field_val 2 q1 AND field_val (2 * 2) (replicate 8 3))
         + (drop_bit 2 (field_val 2 q1) AND field_val (2 * 2) (replicate 8 3)) = field_val (2 * 2) (pair_sums q1)"
    by (rule swar_add_nat [OF d1]) (simp_all add: l1)
  then have e2: "(field_val 2 q1 AND 0x33333333) + (drop_bit 2 (field_val 2 q1) AND 0x33333333) = field_val 4 q2"
    by (simp add: mask_vals q2_def)
  have d2: "\<forall>d\<in>set q2. d < 2 ^ 4" by (rule le_imp_less_pow [OF b2]) simp
  have "field_val 4 q2 < 2 ^ (4 * length q2)" by (rule val_bound [OF d2])
  then have v2: "field_val 4 q2 < 2 ^ 32" by (simp add: l2)
  have 2: "swar2 (field_val 2 q1) = field_val 4 q2" using v2 by (simp add: swar2_def e2)
  \<comment> \<open>third layer: 4 bytes\<close>
  have e3: "field_val 4 q2 + drop_bit 4 (field_val 4 q2) = field_val 4 (field_adds q2 (tl q2))"
    by (simp only: drop_bit_val [OF d2] val_adds)
  have d2': "\<forall>d\<in>set (field_adds q2 (tl q2)). d < 2 ^ 4"
    by (rule le_imp_less_pow [OF adds_tl_bound [OF b2]]) simp
  have "field_val 4 (field_adds q2 (tl q2)) < 2 ^ (4 * length (field_adds q2 (tl q2)))" by (rule val_bound [OF d2'])
  then have v2': "field_val 4 (field_adds q2 (tl q2)) < 2 ^ 32" by (simp add: length_adds_tl l2)
  have "field_val 4 (field_adds q2 (tl q2)) AND field_val (2 * 4) (replicate 4 15) = field_val (2 * 4) (even_fields (field_adds q2 (tl q2)))"
    by (rule and_evens [OF _ d2']) (simp_all add: length_adds_tl l2)
  then have "field_val 4 (field_adds q2 (tl q2)) AND 0x0f0f0f0f = field_val 8 q3"
    by (simp add: mask_vals evens_adds_tl q3_def)
  then have 3: "swar3 (field_val 4 q2) = field_val 8 q3" using v2' by (simp add: swar3_def e3)
  \<comment> \<open>the byte sums\<close>
  obtain r0 r1 r2 r3 where q: "q3 = [r0, r1, r2, r3]"
    using l3 by (auto simp: length_Suc_conv numeral_eq_Suc)
  have r: "r0 \<le> 8" "r1 \<le> 8" "r2 \<le> 8" "r3 \<le> 8" using b3 by (simp_all add: q)
  have "swar5 (swar4 (field_val 8 q3)) mod 64 = r0 + r1 + r2 + r3"
    by (rule tail_sum [OF r]) (simp_all add: q swar4_def swar5_def drop_bit_eq_div)
  moreover have "x AND 63 = x mod 64" for x :: nat
    using and_low [of x 6] by simp
  ultimately have "swar5 (swar4 (field_val 8 q3)) AND 63 = sum_list q3" by (simp add: q)
  then show ?thesis by (simp only: 1 2 3 s ds_def)
qed

section \<open>The metric\<close>

lemma distance_hamming: "distance x y = hamming x y"
proof -
  have "unat (x XOR y) < 2 ^ 32" using unsigned_less [of "x XOR y"] by simp
  then have "distance x y = sum_list (bit_list 32 (unat (x XOR y)))"
    by (simp only: distance_steps swar_popcount)
  also have "\<dots> = length (filter (bit (unat (x XOR y))) [0..<32])"
    by (rule sum_list_bits)
  also have "filter (bit (unat (x XOR y))) [0..<32] = filter (\<lambda>i. bit x i \<noteq> bit y i) [0..<32]"
    by (rule filter_cong) (auto simp: bit_unsigned_iff bit_xor_iff)
  finally show ?thesis by (simp add: hamming_def)
qed

lemma hamming_popcount: "hamming x y = popcount (x XOR y)"
  unfolding hamming_def popcount_def
  by (rule arg_cong [where f = length], rule filter_cong) (auto simp: bit_xor_iff)

lemma distance_le: "distance x y \<le> MAX_DISTANCE"
proof -
  have "length (filter (\<lambda>i. bit x i \<noteq> bit y i) [0..<32]) \<le> length [0..<32]"
    by (rule length_filter_le)
  then show ?thesis by (simp add: distance_hamming hamming_def MAX_DISTANCE_def)
qed

lemma distance_self: "distance x x = 0"
  by (simp add: distance_hamming hamming_def)

lemma distance_sym: "distance x y = distance y x"
  unfolding distance_hamming hamming_def
  by (rule arg_cong [where f = length], rule filter_cong) auto

lemma length_filter_union:
  "(\<And>x. x \<in> set xs \<Longrightarrow> P x \<Longrightarrow> Q x \<or> R x) \<Longrightarrow>
   length (filter P xs) \<le> length (filter Q xs) + length (filter R xs)"
  by (induction xs) auto

lemma distance_triangle: "distance x z \<le> distance x y + distance y z"
  unfolding distance_hamming hamming_def by (rule length_filter_union) auto

lemma distance_eq_0: "distance x y = 0 \<longleftrightarrow> x = y"
proof
  assume "distance x y = 0"
  then have "filter (\<lambda>i. bit x i \<noteq> bit y i) [0..<32] = []"
    by (simp add: distance_hamming hamming_def)
  then have "\<forall>i<32. bit x i = bit y i"
    by (auto simp: filter_empty_conv)
  then show "x = y" by (auto intro: bit_word_eqI)
qed (simp add: distance_self)

text \<open>
  Claim C7.  For all keys \<open>x\<close>, \<open>y\<close>, \<open>z\<close>: \<open>distance x y\<close> is the number of bit positions
  in which \<open>x\<close> and \<open>y\<close> differ, the population count of \<open>x XOR y\<close>; the distance of a
  key to itself is 0; the distance is symmetric, satisfies the triangle inequality and
  lies between 0 and 32.
\<close>

theorem distance_metric:
  "distance x y = hamming x y \<and> hamming x y = popcount (x XOR y)
   \<and> distance x x = 0
   \<and> distance x y = distance y x
   \<and> distance x z \<le> distance x y + distance y z
   \<and> 0 \<le> distance x y \<and> distance x y \<le> 32"
proof -
  have "distance x y = hamming x y" by (rule distance_hamming)
  moreover have "hamming x y = popcount (x XOR y)" by (rule hamming_popcount)
  moreover have "distance x x = 0" by (rule distance_self)
  moreover have "distance x y = distance y x" by (rule distance_sym)
  moreover have "distance x z \<le> distance x y + distance y z" by (rule distance_triangle)
  moreover have "distance x y \<le> 32" using distance_le [of x y] by (simp add: MAX_DISTANCE_def)
  ultimately show ?thesis by simp
qed

theorem distance_metric_witness:
  "distance 5 6 = hamming 5 6 \<and> hamming 5 6 = popcount (5 XOR 6)
   \<and> distance 5 5 = 0
   \<and> distance 5 6 = distance 6 5
   \<and> distance 5 3 \<le> distance 5 6 + distance 6 3
   \<and> 0 \<le> distance 5 6 \<and> distance 5 6 \<le> 32"
  by (rule distance_metric)

section \<open>Queries on well-formed trees\<close>

lemma bkeys_addkey: "bkeys (addkey b k) = bkeys b @ [k]"
  by (simp add: addkey_def Let_def)

lemma bkeys_scan: "bkeys (scan b ks ref maxd) = bkeys b @ matches ref maxd ks"
  by (induction b ks ref maxd rule: scan.induct) (simp_all add: matches_def bkeys_addkey)

lemma appended_scan: "appended b (scan b ks ref maxd) = matches ref maxd ks"
  by (simp add: appended_def bkeys_scan)

lemma appended_query_linear:
  "appended b (fst (query_linear b (mktree_linear keys max_linear) ref maxd)) = matches ref maxd keys"
  by (simp add: query_linear_def mktree_linear_def appended_scan)

lemma uadd_small: "x < 65536 \<Longrightarrow> y < 65536 \<Longrightarrow> uadd x y = x + y"
  by (simp add: uadd_def)

lemma bk_skip_filter:
  assumes "maxd \<le> MAX_DISTANCE" "d \<le> MAX_DISTANCE"
  shows "sorted_wrt (<) (map fst ps) \<Longrightarrow> \<forall>p\<in>set ps. fst p < 65536 \<Longrightarrow>
    bk_skip ps maxd d = filter (\<lambda>p. d \<le> fst p + maxd) ps"
proof (induction ps)
  case Nil then show ?case by simp
next
  case (Cons p ps)
  have u: "uadd (fst p) maxd = fst p + maxd"
    using Cons.prems assms by (simp add: uadd_small MAX_DISTANCE_def)
  show ?case
  proof (cases "fst p + maxd < d")
    case True
    then show ?thesis using Cons by (simp add: u)
  next
    case False
    then have "\<forall>q\<in>set ps. d \<le> fst q + maxd" using Cons.prems by fastforce
    then have "filter (\<lambda>p. d \<le> fst p + maxd) ps = ps" by simp
    then show ?thesis using False by (simp add: u)
  qed
qed

lemma bk_visit_filter:
  assumes "maxd \<le> MAX_DISTANCE" "d \<le> MAX_DISTANCE"
  shows "sorted_wrt (<) (map fst ps) \<Longrightarrow>
    bk_visit b ps ref maxd d nc = bk_recurse b (filter (\<lambda>p. fst p \<le> maxd + d) ps) ref maxd nc"
proof (induction ps arbitrary: b nc)
  case Nil then show ?case by simp
next
  case (Cons p ps)
  have u: "uadd maxd d = maxd + d"
    using assms by (simp add: uadd_small MAX_DISTANCE_def)
  show ?case
  proof (cases "fst p \<le> maxd + d")
    case True
    then show ?thesis using Cons by (simp add: u split: prod.splits)
  next
    case False
    then have "\<forall>q\<in>set ps. \<not> fst q \<le> maxd + d" using Cons.prems by fastforce
    then have "filter (\<lambda>p. fst p \<le> maxd + d) ps = []" by simp
    then show ?thesis using False by (simp add: u)
  qed
qed

lemma bk_recurse_append:
  "(\<And>p b. p \<in> set ps \<Longrightarrow> bkeys (fst (query_bk b (snd p) ref maxd)) = bkeys b @ M (snd p)) \<Longrightarrow>
   bkeys (fst (bk_recurse b ps ref maxd nc)) = bkeys b @ concat (map (\<lambda>p. M (snd p)) ps)"
proof (induction ps arbitrary: b nc)
  case Nil then show ?case by simp
next
  case (Cons p ps)
  obtain b' n where q: "query_bk b (snd p) ref maxd = (b', n)" by (cases "query_bk b (snd p) ref maxd")
  have "bkeys b' = bkeys b @ M (snd p)" using Cons.prems [of p b] q by simp
  moreover have "bkeys (fst (bk_recurse b' ps ref maxd (nc + n))) = bkeys b' @ concat (map (\<lambda>p. M (snd p)) ps)"
    by (rule Cons.IH) (simp add: Cons.prems)
  ultimately show ?case by (simp add: q)
qed

lemma concat_map_filter_empty:
  "(\<And>x. x \<in> set xs \<Longrightarrow> \<not> P x \<Longrightarrow> f x = []) \<Longrightarrow> concat (map f (filter P xs)) = concat (map f xs)"
  by (induction xs) auto

lemma matches_concat: "matches ref maxd (concat xss) = concat (map (matches ref maxd) xss)"
  by (induction xss) (simp_all add: matches_def)

lemma matches_empty_bucket:
  assumes "\<forall>k\<in>set ks. distance key k = c" and "\<not> bk_in_range (distance key ref) maxd (c, t)"
  shows "matches ref maxd ks = []"
proof -
  have "\<not> distance ref k \<le> maxd" if "k \<in> set ks" for k
  proof
    assume m: "distance ref k \<le> maxd"
    have c: "distance key k = c" using assms(1) that by simp
    have "distance key ref \<le> distance key k + distance k ref" by (rule distance_triangle)
    moreover have "distance key k \<le> distance key ref + distance ref k" by (rule distance_triangle)
    ultimately show False using assms(2) m c distance_sym [of k ref]
      by (simp add: bk_in_range_def)
  qed
  then show ?thesis by (simp add: matches_def filter_empty_conv)
qed

lemma query_bk_node_eq:
  assumes "maxd \<le> MAX_DISTANCE"
    and "sorted_wrt (<) (map fst child)"
    and "\<forall>p\<in>set child. fst p < 65536"
  shows "query_bk b (BK_Node key child) ref maxd =
           bk_recurse (if distance key ref \<le> maxd then addkey b key else b)
             (filter (bk_in_range (distance key ref) maxd) child) ref maxd 1"
proof -
  let ?d = "distance key ref"
  have d: "?d \<le> MAX_DISTANCE" by (rule distance_le)
  have s: "bk_skip child maxd ?d = filter (\<lambda>p. ?d \<le> fst p + maxd) child"
    using assms by (intro bk_skip_filter d)
  have "sorted_wrt (<) (map fst (filter (\<lambda>p. ?d \<le> fst p + maxd) child))"
    using assms(2) by (simp add: sorted_wrt_map sorted_wrt_filter)
  then have v: "bk_visit b1 (filter (\<lambda>p. ?d \<le> fst p + maxd) child) ref maxd ?d nc
      = bk_recurse b1 (filter (\<lambda>p. fst p \<le> maxd + ?d) (filter (\<lambda>p. ?d \<le> fst p + maxd) child)) ref maxd nc"
    for b1 nc
    using assms(1) d by (intro bk_visit_filter)
  have f: "filter (\<lambda>p. fst p \<le> maxd + ?d) (filter (\<lambda>p. ?d \<le> fst p + maxd) child)
      = filter (bk_in_range ?d maxd) child"
    by (auto simp: bk_in_range_def intro!: filter_cong)
  show ?thesis
    by (simp only: query_bk.simps Let_def s v f)
qed

lemma query_bk_correct:
  assumes m: "maxd \<le> MAX_DISTANCE"
  shows "bk_wf t \<Longrightarrow> bkeys (fst (query_bk b t ref maxd)) = bkeys b @ matches ref maxd (bk_keys t)"
proof (induction t arbitrary: b)
  case (BK_Leaf keys)
  then show ?case by (simp add: bkeys_scan)
next
  case (BK_Node key child)
  let ?d = "distance key ref"
  let ?b1 = "if ?d \<le> maxd then addkey b key else b"
  have wf: "sorted_wrt (<) (map fst child)"
    "\<And>p. p \<in> set child \<Longrightarrow> fst p \<le> MAX_DISTANCE"
    "\<And>p. p \<in> set child \<Longrightarrow> \<forall>k\<in>set (bk_keys (snd p)). distance key k = fst p"
    "\<And>p. p \<in> set child \<Longrightarrow> bk_wf (snd p)"
    using BK_Node.prems by auto
  have small: "\<forall>p\<in>set child. fst p < 65536"
    using wf(2) by (fastforce simp: MAX_DISTANCE_def)
  have ih: "bkeys (fst (query_bk b' (snd p) ref maxd)) = bkeys b' @ matches ref maxd (bk_keys (snd p))"
    if "p \<in> set child" for p b'
  proof -
    have "snd p \<in> Basic_BNFs.snds p" by (cases p) simp
    then show ?thesis by (rule BK_Node.IH [OF that _ wf(4) [OF that]])
  qed
  have 1: "bkeys (fst (query_bk b (BK_Node key child) ref maxd))
      = bkeys ?b1 @ concat (map (\<lambda>p. matches ref maxd (bk_keys (snd p)))
                       (filter (bk_in_range ?d maxd) child))"
    unfolding query_bk_node_eq [OF m wf(1) small]
    by (rule bk_recurse_append) (simp add: ih)
  have 2: "concat (map (\<lambda>p. matches ref maxd (bk_keys (snd p))) (filter (bk_in_range ?d maxd) child))
      = concat (map (\<lambda>p. matches ref maxd (bk_keys (snd p))) child)"
  proof (rule concat_map_filter_empty)
    fix p assume p: "p \<in> set child" "\<not> bk_in_range ?d maxd p"
    show "matches ref maxd (bk_keys (snd p)) = []"
      using matches_empty_bucket [OF wf(3) [OF p(1)], of ref maxd "snd p"] p(2) by simp
  qed
  have 3: "bkeys ?b1 = bkeys b @ matches ref maxd [key]"
    by (simp add: bkeys_addkey matches_def distance_sym [of ref key])
  have 4: "matches ref maxd (bk_keys (BK_Node key child))
      = matches ref maxd [key] @ concat (map (\<lambda>p. matches ref maxd (bk_keys (snd p))) child)"
    by (simp add: matches_def filter_concat comp_def)
  show ?case unfolding 1 2 3 4 by simp
qed

lemma query_vp_node_eq:
  assumes "maxd \<le> MAX_DISTANCE" and "threshold < 65536"
  shows "query_vp b (VP_Node threshold vantage near far) ref maxd =
     (let d = distance vantage ref;
          r1 = (if d \<le> maxd + threshold then vp_sub (b, 1) near ref maxd else (b, 1));
          r2 = (if d \<le> maxd then (addkey (fst r1) vantage, snd r1) else r1)
      in if threshold < d + maxd then vp_sub r2 far ref maxd else r2)"
proof -
  have d: "distance vantage ref \<le> MAX_DISTANCE" by (rule distance_le)
  have u: "uadd maxd threshold = maxd + threshold" "uadd (distance vantage ref) maxd = distance vantage ref + maxd"
    using assms d by (simp_all add: uadd_small MAX_DISTANCE_def)
  show ?thesis
    by (auto simp: Let_def u split: prod.splits)
qed

definition vp_okeys :: "vptree option \<Rightarrow> bkey list" where
  "vp_okeys ot = (case ot of None \<Rightarrow> [] | Some t \<Rightarrow> vp_keys t)"

lemma vp_keys_node:
  "vp_keys (VP_Node threshold vantage near far) = vp_okeys near @ [vantage] @ vp_okeys far"
  by (simp add: vp_okeys_def)

lemma vp_sub_append:
  assumes "\<And>t b. t \<in> set_option ot \<Longrightarrow> bkeys (fst (query_vp b t ref maxd)) = bkeys b @ matches ref maxd (vp_keys t)"
  shows "bkeys (fst (vp_sub r ot ref maxd)) = bkeys (fst r) @ matches ref maxd (vp_okeys ot)"
proof (cases ot)
  case None
  then show ?thesis by (simp add: vp_okeys_def matches_def)
next
  case (Some t)
  then show ?thesis using assms [of t "fst r"]
    by (cases "query_vp (fst r) t ref maxd") (simp add: vp_okeys_def)
qed

lemma matches_empty_near:
  assumes "\<forall>k\<in>set ks. distance vantage k \<le> thr" and "maxd + thr < distance vantage ref"
  shows "matches ref maxd ks = []"
proof -
  have "\<not> distance ref k \<le> maxd" if "k \<in> set ks" for k
  proof
    assume m: "distance ref k \<le> maxd"
    have "distance vantage k \<le> thr" using assms(1) that by simp
    moreover have "distance vantage ref \<le> distance vantage k + distance k ref"
      by (rule distance_triangle)
    ultimately show False using assms(2) m distance_sym [of k ref] by simp
  qed
  then show ?thesis by (simp add: matches_def filter_empty_conv)
qed

lemma matches_empty_far:
  assumes "\<forall>k\<in>set ks. thr < distance vantage k" and "distance vantage ref + maxd \<le> thr"
  shows "matches ref maxd ks = []"
proof -
  have "\<not> distance ref k \<le> maxd" if "k \<in> set ks" for k
  proof
    assume m: "distance ref k \<le> maxd"
    have "thr < distance vantage k" using assms(1) that by simp
    moreover have "distance vantage k \<le> distance vantage ref + distance ref k"
      by (rule distance_triangle)
    ultimately show False using assms(2) m by simp
  qed
  then show ?thesis by (simp add: matches_def filter_empty_conv)
qed

lemma query_vp_correct:
  assumes m: "maxd \<le> MAX_DISTANCE"
  shows "vp_wf t \<Longrightarrow> bkeys (fst (query_vp b t ref maxd)) = bkeys b @ matches ref maxd (vp_keys t)"
proof (induction t arbitrary: b)
  case (VP_Leaf keys)
  then show ?case by (simp add: bkeys_scan)
next
  case (VP_Node thr v near far)
  let ?d = "distance v ref"
  have thr: "thr < 65536" using VP_Node.prems by (simp add: MAX_DISTANCE_def)
  have wn: "\<forall>k\<in>set (vp_okeys near). distance v k \<le> thr"
    and wf: "\<forall>k\<in>set (vp_okeys far). thr < distance v k"
    using VP_Node.prems by (auto simp: vp_okeys_def split: option.splits)
  have n: "bkeys (fst (vp_sub r near ref maxd)) = bkeys (fst r) @ matches ref maxd (vp_okeys near)" for r
    using VP_Node.prems by (intro vp_sub_append VP_Node.IH(1)) (auto split: option.splits)
  have f: "bkeys (fst (vp_sub r far ref maxd)) = bkeys (fst r) @ matches ref maxd (vp_okeys far)" for r
    using VP_Node.prems by (intro vp_sub_append VP_Node.IH(2)) (auto split: option.splits)
  have en: "matches ref maxd (vp_okeys near) = []" if "maxd + thr < ?d"
    using wn that by (rule matches_empty_near)
  have ef: "matches ref maxd (vp_okeys far) = []" if "?d + maxd \<le> thr"
    using wf that by (rule matches_empty_far)
  have k: "matches ref maxd (vp_keys (VP_Node thr v near far))
      = matches ref maxd (vp_okeys near) @ (if ?d \<le> maxd then [v] else []) @ matches ref maxd (vp_okeys far)"
    by (simp add: vp_okeys_def matches_def distance_sym [of ref v])
  show ?case
    unfolding query_vp_node_eq [OF m thr] k
    by (auto simp: Let_def n f en ef bkeys_addkey not_le not_less)
qed

section \<open>The histogram\<close>

lemma dcnt_count_nth:
  "v < length dcnt \<Longrightarrow> \<forall>k\<in>set ks. distance rootkey k < length dcnt \<Longrightarrow>
   dcnt_count rootkey ks dcnt ! v = dcnt ! v + length (filter (\<lambda>k. distance rootkey k = v) ks)"
proof (induction rootkey ks dcnt rule: dcnt_count.induct)
  case (1 rootkey dcnt)
  then show ?case by simp
next
  case (2 rootkey k ks dcnt)
  then show ?case by (auto simp: nth_list_update)
qed

lemma dcnt_accum_nth:
  "i < length cs \<Longrightarrow> dcnt_accum a cs ! i = a + sum_list (take (Suc i) cs)"
proof (induction a cs arbitrary: i rule: dcnt_accum.induct)
  case (1 a)
  then show ?case by simp
next
  case (2 a c cs)
  then show ?case by (cases i) simp_all
qed

lemma length_filter_le_Suc:
  "length (filter (\<lambda>k. f k \<le> Suc v) ks)
     = length (filter (\<lambda>k. f k \<le> v) ks) + length (filter (\<lambda>k. f k = Suc v) ks)"
  by (induction ks) auto

lemma sum_counts:
  "sum_list (map (\<lambda>u. length (filter (\<lambda>k. f k = u) ks)) [0..<Suc v])
     = length (filter (\<lambda>k. (f k :: nat) \<le> v) ks)"
proof (induction v)
  case 0
  then show ?case by simp
next
  case (Suc v)
  then show ?case by (simp add: length_filter_le_Suc)
qed

lemma dcnt_of_nth:
  assumes "v \<le> MAX_DISTANCE"
  shows "dcnt_of rootkey ks ! v = length (filter (\<lambda>k. distance rootkey k \<le> v) ks)"
proof -
  define z where "z = replicate (MAX_DISTANCE + 1) (0::nat)"
  have lz: "length z = Suc MAX_DISTANCE" by (simp add: z_def)
  have nz: "z ! i = 0" if "i < Suc MAX_DISTANCE" for i
    unfolding z_def using that by (intro nth_replicate) simp
  let ?c = "dcnt_count rootkey ks z"
  let ?m = "map (\<lambda>u. length (filter (\<lambda>k. distance rootkey k = u) ks)) [0..<Suc MAX_DISTANCE]"
  have d: "\<forall>k\<in>set ks. distance rootkey k < length z"
    using distance_le by (auto simp: less_Suc_eq_le lz)
  have "?c = ?m"
  proof (rule nth_equalityI)
    show "length ?c = length ?m"
      by (simp add: length_dcnt_count lz)
  next
    fix i assume "i < length ?c"
    then have i: "i < Suc MAX_DISTANCE" by (simp add: length_dcnt_count lz)
    then have "?c ! i = length (filter (\<lambda>k. distance rootkey k = i) ks)"
      using dcnt_count_nth [OF _ d, of i] by (simp add: lz nz)
    then show "?c ! i = ?m ! i"
      using i by (simp del: upt_Suc)
  qed
  then have "take (Suc v) ?c = map (\<lambda>u. length (filter (\<lambda>k. distance rootkey k = u) ks)) [0..<Suc v]"
    using assms by (simp add: take_map min_def del: upt_Suc)
  then have "sum_list (take (Suc v) ?c) = length (filter (\<lambda>k. distance rootkey k \<le> v) ks)"
    by (simp only: sum_counts)
  moreover have "v < length ?c" using assms by (simp add: length_dcnt_count lz)
  ultimately show ?thesis by (simp add: dcnt_of_def dcnt_accum_nth z_def)
qed

lemma dcnt_of_last: "dcnt_of rootkey ks ! MAX_DISTANCE = length ks"
proof -
  have "filter (\<lambda>k. distance rootkey k \<le> MAX_DISTANCE) ks = ks"
    by (simp add: distance_le)
  then show ?thesis by (simp add: dcnt_of_nth)
qed

lemma dcnt_of_0: "dcnt_of rootkey ks ! 0 = length (filter (\<lambda>k. k = rootkey) ks)"
proof -
  have "filter (\<lambda>k. distance rootkey k \<le> 0) ks = filter (\<lambda>k. k = rootkey) ks"
    by (rule filter_cong) (auto simp: distance_eq_0)
  then show ?thesis by (simp add: dcnt_of_nth)
qed

lemma dcnt_of_diff:
  assumes "1 \<le> i" "i \<le> MAX_DISTANCE"
  shows "dcnt_of rootkey ks ! i - dcnt_of rootkey ks ! (i - 1)
      = length (filter (\<lambda>k. distance rootkey k = i) ks)"
proof -
  obtain j where i: "i = Suc j" using assms(1) by (cases i) auto
  show ?thesis using assms(2) unfolding i
    by (simp add: dcnt_of_nth length_filter_le_Suc)
qed

section \<open>The counting sort of the BK-tree\<close>

definition bucket :: "bkey \<Rightarrow> bkey list \<Rightarrow> nat \<Rightarrow> bkey list" where
  "bucket rootkey ks v = filter (\<lambda>k. distance rootkey k = v) ks"

definition upto_bucket :: "bkey \<Rightarrow> bkey list \<Rightarrow> nat \<Rightarrow> bkey list" where
  "upto_bucket rootkey ks v = filter (\<lambda>k. distance rootkey k \<le> v) ks"

lemma length_filter_disjoint:
  "(\<And>x. P x \<Longrightarrow> R x) \<Longrightarrow> (\<And>x. Q x \<Longrightarrow> R x) \<Longrightarrow> (\<And>x. \<not> (P x \<and> Q x)) \<Longrightarrow>
   length (filter P xs) + length (filter Q xs) \<le> length (filter R xs)"
  by (induction xs) (auto simp: le_Suc_eq)

lemma upto_bucket_step:
  "u < v \<Longrightarrow> length (upto_bucket r ks u) + length (bucket r ks v) \<le> length (upto_bucket r ks v)"
  unfolding upto_bucket_def bucket_def by (rule length_filter_disjoint) auto

lemma bucket_le_upto: "length (bucket r ks v) \<le> length (upto_bucket r ks v)"
  using length_filter_disjoint [of "\<lambda>k. distance r k = v" "\<lambda>k. distance r k \<le> v" "\<lambda>k. False" ks]
  by (simp add: upto_bucket_def bucket_def)

lemma upto_bucket_le: "length (upto_bucket r ks v) \<le> length ks"
  by (simp add: upto_bucket_def)

lemma bucket_append: "bucket r (xs @ ys) v = bucket r xs v @ bucket r ys v"
  by (simp add: bucket_def)

definition bk_place_inv :: "bkey \<Rightarrow> bkey list \<Rightarrow> bkey list \<Rightarrow> bkey list \<Rightarrow> nat list \<Rightarrow> bool" where
  "bk_place_inv r all pre tmp pos \<longleftrightarrow>
     length tmp = length all \<and> length pos = Suc MAX_DISTANCE \<and>
     (\<forall>v\<le>MAX_DISTANCE.
        pos ! v = length (upto_bucket r all v) - length (bucket r pre v) \<and>
        take (length (bucket r pre v)) (drop (pos ! v) tmp) = rev (bucket r pre v))"

lemma bk_place_step:
  assumes inv: "bk_place_inv r (pre @ k # ks) pre tmp pos"
  defines "d \<equiv> distance r k"
  shows "pos ! d \<noteq> 0 \<and> pos ! d - 1 < length tmp
       \<and> bk_place_inv r (pre @ k # ks) (pre @ [k]) (tmp[pos ! d - 1 := k]) (pos[d := pos ! d - 1])"
proof -
  let ?all = "pre @ k # ks"
  let ?C = "\<lambda>v. length (upto_bucket r ?all v)"
  let ?n = "\<lambda>v. length (bucket r pre v)"
  let ?p = "pos ! d - 1"
  have d: "d \<le> MAX_DISTANCE" unfolding d_def by (rule distance_le)
  have lt: "length tmp = length ?all" and lp: "length pos = Suc MAX_DISTANCE"
    and pv: "\<And>v. v \<le> MAX_DISTANCE \<Longrightarrow> pos ! v = ?C v - ?n v"
    and tv: "\<And>v. v \<le> MAX_DISTANCE \<Longrightarrow> take (?n v) (drop (pos ! v) tmp) = rev (bucket r pre v)"
    using inv unfolding bk_place_inv_def by auto
  have all_d: "length (bucket r ?all d) = Suc (?n d) + length (bucket r ks d)"
    by (simp add: bucket_def d_def)
  have Cd: "Suc (?n d) \<le> ?C d"
    using bucket_le_upto [of r ?all d] all_d by simp
  have pd: "pos ! d = ?C d - ?n d" using pv d by simp
  have p0: "pos ! d \<noteq> 0" using pd Cd by simp
  have Sp: "Suc ?p = pos ! d" using p0 by simp
  have "?C d \<le> length ?all" by (rule upto_bucket_le)
  then have pl: "?p < length tmp" using pd Cd lt by simp
  have nd: "length (bucket r (pre @ [k]) v) = (if v = d then Suc (?n v) else ?n v)" for v
    by (auto simp: bucket_def d_def)
  have bd: "bucket r (pre @ [k]) v = (if v = d then bucket r pre v @ [k] else bucket r pre v)" for v
    by (auto simp: bucket_def d_def)
  have inv': "pos[d := ?p] ! v = ?C v - length (bucket r (pre @ [k]) v)
      \<and> take (length (bucket r (pre @ [k]) v)) (drop (pos[d := ?p] ! v) (tmp[?p := k]))
          = rev (bucket r (pre @ [k]) v)"
    if v: "v \<le> MAX_DISTANCE" for v
  proof (cases "v = d")
    case True
    have "drop ?p (tmp[?p := k]) = k # drop (Suc ?p) tmp"
      using pl by (simp add: Cons_nth_drop_Suc [symmetric] del: One_nat_def)
    then have "take (Suc (?n d)) (drop ?p (tmp[?p := k])) = k # take (?n d) (drop (pos ! d) tmp)"
      by (simp only: Sp take_Suc_Cons)
    then show ?thesis
      using True d lp pd Cd tv [OF d] by (simp add: nd bd del: One_nat_def)
  next
    case False
    have same: "take (?n v) (drop (pos ! v) (tmp[?p := k])) = take (?n v) (drop (pos ! v) tmp)"
    proof (cases "v < d")
      case True
      have "?C v + length (bucket r ?all d) \<le> ?C d" using True by (rule upto_bucket_step)
      then have "?C v \<le> ?p" using pd all_d by simp
      moreover have "?n v \<le> ?C v"
        using bucket_le_upto [of r ?all v] by (simp add: bucket_def upto_bucket_def)
      ultimately have "pos ! v + ?n v \<le> ?p" using pv [OF v] by simp
      then show ?thesis by (simp add: drop_update_swap take_update_cancel del: One_nat_def)
    next
      case False
      then have "d < v" using \<open>v \<noteq> d\<close> by simp
      then have "?C d + length (bucket r ?all v) \<le> ?C v" by (rule upto_bucket_step)
      moreover have "?n v \<le> length (bucket r ?all v)" by (simp add: bucket_def)
      ultimately have "?C d \<le> pos ! v" using pv [OF v] by simp
      then have "?p < pos ! v" using pd Cd by simp
      then show ?thesis by (simp add: drop_update_cancel del: One_nat_def)
    qed
    show ?thesis using False v d lp pv [OF v] tv [OF v] same by (simp add: nd bd del: One_nat_def)
  qed
  have "bk_place_inv r ?all (pre @ [k]) (tmp[?p := k]) (pos[d := ?p])"
    unfolding bk_place_inv_def
  proof (intro conjI allI impI)
    show "length (tmp[?p := k]) = length ?all" using lt by simp
    show "length (pos[d := ?p]) = Suc MAX_DISTANCE" using lp by simp
  qed (use inv' in blast)+
  then show ?thesis using p0 pl by simp
qed

lemma bk_place_result:
  "bk_place_inv r (pre @ ks) pre tmp pos \<Longrightarrow>
   \<exists>tmp'. bk_place r ks tmp pos = Inr tmp' \<and> (\<exists>pos'. bk_place_inv r (pre @ ks) (pre @ ks) tmp' pos')"
proof (induction ks arbitrary: pre tmp pos)
  case Nil
  then show ?case by auto
next
  case (Cons k ks)
  let ?d = "distance r k"
  from bk_place_step [OF Cons.prems]
  have s: "pos ! ?d \<noteq> 0" "pos ! ?d - 1 < length tmp"
    "bk_place_inv r ((pre @ [k]) @ ks) (pre @ [k]) (tmp[pos ! ?d - 1 := k]) (pos[?d := pos ! ?d - 1])"
    by simp_all
  from Cons.IH [OF s(3)] show ?case using s(1,2) by (simp add: Let_def not_le del: One_nat_def)
qed

lemma bk_place_inv_init:
  "bk_place_inv r ks [] (replicate (length ks) 0) (dcnt_of r ks)"
  unfolding bk_place_inv_def
  by (simp add: length_dcnt_of dcnt_of_nth bucket_def upto_bucket_def)

lemma bk_place_sorted:
  "\<exists>tmp. bk_place r ks (replicate (length ks) 0) (dcnt_of r ks) = Inr tmp
    \<and> length tmp = length ks
    \<and> (\<forall>i. 1 \<le> i \<and> i \<le> MAX_DISTANCE \<longrightarrow>
          take (dcnt_of r ks ! i - dcnt_of r ks ! (i - 1)) (drop (dcnt_of r ks ! (i - 1)) tmp)
            = rev (bucket r ks i))
    \<and> take (dcnt_of r ks ! 0) tmp = rev (bucket r ks 0)"
proof -
  have "bk_place_inv r ([] @ ks) [] (replicate (length ks) 0) (dcnt_of r ks)"
    using bk_place_inv_init [of r ks] by simp
  from bk_place_result [OF this]
  obtain tmp pos' where t: "bk_place r ks (replicate (length ks) 0) (dcnt_of r ks) = Inr tmp"
    and inv: "bk_place_inv r ks ks tmp pos'" by auto
  have lt: "length tmp = length ks" using inv by (simp add: bk_place_inv_def)
  have pv: "pos' ! v = length (upto_bucket r ks v) - length (bucket r ks v)"
    and tv: "take (length (bucket r ks v)) (drop (pos' ! v) tmp) = rev (bucket r ks v)"
    if "v \<le> MAX_DISTANCE" for v
    using inv that unfolding bk_place_inv_def by auto
  have b: "take (dcnt_of r ks ! i - dcnt_of r ks ! (i - 1)) (drop (dcnt_of r ks ! (i - 1)) tmp)
            = rev (bucket r ks i)" if i: "1 \<le> i" "i \<le> MAX_DISTANCE" for i
  proof -
    obtain j where j: "i = Suc j" using i(1) by (cases i) auto
    have "length (upto_bucket r ks i) = length (upto_bucket r ks j) + length (bucket r ks i)"
      unfolding j upto_bucket_def bucket_def by (rule length_filter_le_Suc)
    then have "pos' ! i = dcnt_of r ks ! (i - 1)"
      using pv [OF i(2)] i(2) by (simp add: j dcnt_of_nth upto_bucket_def)
    then show ?thesis
      using tv [OF i(2)] dcnt_of_diff [OF i, of r ks] by (simp add: bucket_def)
  qed
  have "length (upto_bucket r ks 0) = length (bucket r ks 0)"
    by (simp add: upto_bucket_def bucket_def)
  then have z: "take (dcnt_of r ks ! 0) tmp = rev (bucket r ks 0)"
    using pv [of 0] tv [of 0] by (simp add: dcnt_of_nth upto_bucket_def bucket_def)
  show ?thesis using t lt b z by blast
qed

section \<open>Building the BK-tree\<close>

definition bk_built :: "bkey list \<Rightarrow> nat \<Rightarrow> bktree \<Rightarrow> bool" where
  "bk_built keys max_linear t \<longleftrightarrow>
     bk_wf t \<and> set (bk_keys t) = set keys \<and> mset (bk_keys t) \<subseteq># mset keys
     \<and> list_all (leaf_ok max_linear) (bk_leaves t)
     \<and> ((\<exists>l. t = BK_Leaf l) \<longleftrightarrow> length keys \<le> max_linear \<or> length keys \<le> 1)"

lemma bk_children_eq:
  assumes "\<And>j. i \<le> j \<Longrightarrow> j \<le> MAX_DISTANCE \<Longrightarrow> dcnt ! j - dcnt ! (j - 1) \<noteq> 0 \<Longrightarrow>
     mktree_bk (take (dcnt ! j - dcnt ! (j - 1)) (drop (dcnt ! (j - 1)) tmp)) ml = Inr (T j)"
  shows "bk_children tmp dcnt ml i
     = Inr (map (\<lambda>j. (j, T j)) (filter (\<lambda>j. dcnt ! j - dcnt ! (j - 1) \<noteq> 0) [i..<Suc MAX_DISTANCE]))"
  using assms
proof (induction "Suc MAX_DISTANCE - i" arbitrary: i)
  case 0
  then show ?case by (simp add: bk_children.simps [of tmp dcnt ml i])
next
  case (Suc n)
  then have i: "i \<le> MAX_DISTANCE" by simp
  then have u: "[i..<Suc MAX_DISTANCE] = i # [Suc i..<Suc MAX_DISTANCE]"
    by (simp add: upt_conv_Cons)
  have ih: "bk_children tmp dcnt ml (Suc i)
     = Inr (map (\<lambda>j. (j, T j)) (filter (\<lambda>j. dcnt ! j - dcnt ! (j - 1) \<noteq> 0) [Suc i..<Suc MAX_DISTANCE]))"
    using Suc.hyps(2) Suc.prems by (intro Suc.hyps(1)) simp_all
  show ?case
  proof (cases "dcnt ! i - dcnt ! (i - 1) = 0")
    case True
    then show ?thesis using i ih
      by (simp add: bk_children.simps [of tmp dcnt ml i] u not_less del: upt_Suc)
  next
    case False
    then have "mktree_bk (take (dcnt ! i - dcnt ! (i - 1)) (drop (dcnt ! (i - 1)) tmp)) ml = Inr (T i)"
      using i by (intro Suc.prems) simp_all
    then show ?thesis using False i ih
      by (simp add: bk_children.simps [of tmp dcnt ml i] u not_less Let_def del: upt_Suc)
  qed
qed

lemma mktree_bk_node:
  assumes n: "\<not> (length (r # ks) \<le> ml \<or> length (r # ks) \<le> 1)"
    and T: "\<And>j. 1 \<le> j \<Longrightarrow> j \<le> MAX_DISTANCE \<Longrightarrow> bucket r ks j \<noteq> [] \<Longrightarrow>
              mktree_bk (rev (bucket r ks j)) ml = Inr (T j)"
  shows "mktree_bk (r # ks) ml
     = Inr (BK_Node r (map (\<lambda>j. (j, T j)) (filter (\<lambda>j. bucket r ks j \<noteq> []) [1..<Suc MAX_DISTANCE])))"
proof -
  obtain tmp where t: "bk_place r ks (replicate (length ks) 0) (dcnt_of r ks) = Inr tmp"
    and s: "\<And>i. 1 \<le> i \<Longrightarrow> i \<le> MAX_DISTANCE \<Longrightarrow>
          take (dcnt_of r ks ! i - dcnt_of r ks ! (i - 1)) (drop (dcnt_of r ks ! (i - 1)) tmp)
            = rev (bucket r ks i)"
    using bk_place_sorted [of r ks] by blast
  let ?dcnt = "dcnt_of r ks"
  have e: "?dcnt ! j - ?dcnt ! (j - 1) \<noteq> 0 \<longleftrightarrow> bucket r ks j \<noteq> []"
    if "1 \<le> j" "j \<le> MAX_DISTANCE" for j
    using dcnt_of_diff [OF that, of r ks] by (simp add: bucket_def)
  have c: "bk_children tmp ?dcnt ml 1
     = Inr (map (\<lambda>j. (j, T j)) (filter (\<lambda>j. ?dcnt ! j - ?dcnt ! (j - 1) \<noteq> 0) [1..<Suc MAX_DISTANCE]))"
  proof (rule bk_children_eq)
    fix j assume j: "1 \<le> j" "j \<le> MAX_DISTANCE" "?dcnt ! j - ?dcnt ! (j - 1) \<noteq> 0"
    then show "mktree_bk (take (?dcnt ! j - ?dcnt ! (j - 1)) (drop (?dcnt ! (j - 1)) tmp)) ml = Inr (T j)"
      using s [OF j(1,2)] e [OF j(1,2)] T [OF j(1,2)] by simp
  qed
  have f: "filter (\<lambda>j. ?dcnt ! j - ?dcnt ! (j - 1) \<noteq> 0) [1..<Suc MAX_DISTANCE]
      = filter (\<lambda>j. bucket r ks j \<noteq> []) [1..<Suc MAX_DISTANCE]"
  proof (rule filter_cong [OF refl])
    fix j assume "j \<in> set [1..<Suc MAX_DISTANCE]"
    then have "1 \<le> j" "j \<le> MAX_DISTANCE" by (auto simp del: upt_Suc)
    then show "(?dcnt ! j - ?dcnt ! (j - 1) \<noteq> 0) = (bucket r ks j \<noteq> [])" by (rule e)
  qed
  have ks: "ks \<noteq> []" using n by auto
  show ?thesis
    using n ks by (simp add: mktree_bk.simps [of "r # ks"] Let_def dcnt_of_last t c [unfolded f] del: upt_Suc One_nat_def)
qed

lemma sum_list_if_distinct:
  "distinct js \<Longrightarrow> sum_list (map (\<lambda>j. if a = j then (c::nat) else 0) js) \<le> c"
  by (induction js) auto

lemma mset_buckets_subset:
  assumes "distinct js"
  shows "(\<Sum>j\<leftarrow>js. mset (bucket r ks j)) \<subseteq># mset ks"
proof (rule mset_subset_eqI)
  fix x
  have "count (\<Sum>j\<leftarrow>js. mset (bucket r ks j)) x
      = sum_list (map (\<lambda>j. if distance r x = j then count (mset ks) x else 0) js)"
    by (induction js) (auto simp: bucket_def)
  also have "\<dots> \<le> count (mset ks) x" using assms by (rule sum_list_if_distinct)
  finally show "count (\<Sum>j\<leftarrow>js. mset (bucket r ks j)) x \<le> count (mset ks) x" .
qed

lemma sum_list_mset_mono:
  "(\<And>x. x \<in> set xs \<Longrightarrow> f x \<subseteq># g x) \<Longrightarrow> (\<Sum>x\<leftarrow>xs. f x) \<subseteq># (\<Sum>x\<leftarrow>xs. (g x :: 'a multiset))"
  by (induction xs) (auto intro: subset_mset.add_mono)

lemma mktree_bk_built:
  "keys \<noteq> [] \<Longrightarrow> \<exists>t. mktree_bk keys ml = Inr t \<and> bk_built keys ml t"
proof (induction "length keys" arbitrary: keys rule: less_induct)
  case less
  show ?case
  proof (cases "length keys \<le> ml \<or> length keys \<le> 1")
    case True
    then show ?thesis using less.prems
      by (auto simp: mktree_bk.simps [of keys] bk_built_def leaf_ok_def Suc_le_eq)
  next
    case False
    obtain r ks where keys: "keys = r # ks" using less.prems by (cases keys) auto
    let ?js = "filter (\<lambda>j. bucket r ks j \<noteq> []) [1..<Suc MAX_DISTANCE]"
    have "\<exists>t. mktree_bk (rev (bucket r ks j)) ml = Inr t \<and> bk_built (rev (bucket r ks j)) ml t"
      if "bucket r ks j \<noteq> []" for j
    proof (rule less.hyps)
      show "length (rev (bucket r ks j)) < length keys"
        by (simp add: keys bucket_def less_Suc_eq_le)
      show "rev (bucket r ks j) \<noteq> []" using that by simp
    qed
    then have "\<exists>T. \<forall>j. bucket r ks j \<noteq> [] \<longrightarrow>
        mktree_bk (rev (bucket r ks j)) ml = Inr (T j) \<and> bk_built (rev (bucket r ks j)) ml (T j)"
      by (intro choice) blast
    then obtain T where T: "\<And>j. bucket r ks j \<noteq> [] \<Longrightarrow>
        mktree_bk (rev (bucket r ks j)) ml = Inr (T j) \<and> bk_built (rev (bucket r ks j)) ml (T j)"
      by blast
    let ?t = "BK_Node r (map (\<lambda>j. (j, T j)) ?js)"
    have mk: "mktree_bk keys ml = Inr ?t"
      unfolding keys using False [unfolded keys] by (rule mktree_bk_node) (simp add: T)
    have b: "bk_built (rev (bucket r ks j)) ml (T j)" if "j \<in> set ?js" for j
      using that T by simp
    have js: "j \<in> set ?js \<longleftrightarrow> 1 \<le> j \<and> j \<le> MAX_DISTANCE \<and> bucket r ks j \<noteq> []" for j
      by (auto simp: less_Suc_eq_le simp del: upt_Suc)
    have wf: "bk_wf ?t"
    proof -
      have "sorted_wrt (<) ?js" by (intro sorted_wrt_filter) (simp del: upt_Suc)
      moreover have "map fst (map (\<lambda>j. (j, T j)) ?js) = ?js" by (simp add: comp_def)
      moreover have "\<forall>k\<in>set (bk_keys (T j)). distance r k = j" if "j \<in> set ?js" for j
        using b [OF that] by (auto simp: bk_built_def bucket_def)
      ultimately show ?thesis using b by (auto simp: bk_built_def)
    qed
    have ks: "bk_keys ?t = r # concat (map (\<lambda>j. bk_keys (T j)) ?js)"
      by (simp add: comp_def)
    have "set (concat (map (\<lambda>j. bk_keys (T j)) ?js)) = {k \<in> set ks. k \<noteq> r}"
    proof -
      have "set (concat (map (\<lambda>j. bk_keys (T j)) ?js)) = (\<Union>j\<in>set ?js. set (bucket r ks j))"
        using b by (auto simp: bk_built_def)
      also have "\<dots> = {k \<in> set ks. distance r k \<noteq> 0}"
      proof (intro set_eqI iffI)
        fix k assume "k \<in> (\<Union>j\<in>set ?js. set (bucket r ks j))"
        then show "k \<in> {k \<in> set ks. distance r k \<noteq> 0}"
          unfolding js by (auto simp: bucket_def)
      next
        fix k assume k: "k \<in> {k \<in> set ks. distance r k \<noteq> 0}"
        then have "k \<in> set (bucket r ks (distance r k))" by (simp add: bucket_def)
        moreover from this have "distance r k \<in> set ?js"
          unfolding js using k distance_le [of r k] by auto
        ultimately show "k \<in> (\<Union>j\<in>set ?js. set (bucket r ks j))" by blast
      qed
      finally show ?thesis by (auto simp: distance_eq_0)
    qed
    then have st: "set (bk_keys ?t) = set keys" unfolding ks keys by auto
    have "mset (concat (map (\<lambda>j. bk_keys (T j)) ?js)) = (\<Sum>j\<leftarrow>?js. mset (bk_keys (T j)))"
      by (simp add: mset_concat comp_def)
    also have "\<dots> \<subseteq># (\<Sum>j\<leftarrow>?js. mset (bucket r ks j))"
      by (rule sum_list_mset_mono) (use b in \<open>auto simp: bk_built_def\<close>)
    also have "\<dots> \<subseteq># mset ks" by (rule mset_buckets_subset) simp
    finally have ms: "mset (bk_keys ?t) \<subseteq># mset keys" unfolding ks keys by simp
    have lv: "list_all (leaf_ok ml) (bk_leaves ?t)"
      using b by (auto simp: bk_built_def list_all_iff comp_def)
    show ?thesis using mk wf st ms lv False by (auto simp: bk_built_def)
  qed
qed

section \<open>Building the VP-tree\<close>

lemma vp_scan_spec:
  "k0 \<le> Suc MAX_DISTANCE \<Longrightarrow>
   k0 \<le> vp_scan dcnt median k0 \<and> vp_scan dcnt median k0 \<le> Suc MAX_DISTANCE
   \<and> (vp_scan dcnt median k0 \<le> MAX_DISTANCE \<longrightarrow> median < dcnt ! vp_scan dcnt median k0)
   \<and> (\<forall>j. k0 \<le> j \<and> j < vp_scan dcnt median k0 \<longrightarrow> dcnt ! j \<le> median)"
proof (induction dcnt median k0 rule: vp_scan.induct)
  case (1 dcnt median k)
  show ?case
  proof (cases "k \<le> MAX_DISTANCE \<and> \<not> median < dcnt ! k")
    case True
    then have e: "vp_scan dcnt median k = vp_scan dcnt median (k + 1)"
      by (simp add: vp_scan.simps [of dcnt median k])
    have ih: "k + 1 \<le> vp_scan dcnt median (k + 1) \<and> vp_scan dcnt median (k + 1) \<le> Suc MAX_DISTANCE
       \<and> (vp_scan dcnt median (k + 1) \<le> MAX_DISTANCE \<longrightarrow> median < dcnt ! vp_scan dcnt median (k + 1))
       \<and> (\<forall>j. k + 1 \<le> j \<and> j < vp_scan dcnt median (k + 1) \<longrightarrow> dcnt ! j \<le> median)"
      using True by (intro "1.IH") simp_all
    have "dcnt ! j \<le> median" if "k \<le> j" "j < vp_scan dcnt median (k + 1)" for j
    proof (cases "j = k")
      case True
      then show ?thesis using \<open>k \<le> MAX_DISTANCE \<and> \<not> median < dcnt ! k\<close> by simp
    next
      case False
      then show ?thesis using that ih by simp
    qed
    then show ?thesis unfolding e using ih by auto
  next
    case False
    then have "vp_scan dcnt median k = k"
      by (auto simp: vp_scan.simps [of dcnt median k])
    then show ?thesis using False "1.prems" by auto
  qed
qed

definition vp_near :: "bkey \<Rightarrow> nat \<Rightarrow> bkey list \<Rightarrow> bkey list" where
  "vp_near r k ks = filter (\<lambda>x. x \<noteq> r \<and> distance r x \<le> k) ks"

definition vp_far :: "bkey \<Rightarrow> nat \<Rightarrow> bkey list \<Rightarrow> bkey list" where
  "vp_far r k ks = filter (\<lambda>x. x \<noteq> r \<and> \<not> distance r x \<le> k) ks"

lemma vp_place_result:
  assumes "length tmp = A + B"
    and "length (vp_near r k (pre @ xs)) = A" and "length (vp_far r k (pre @ xs)) = B"
    and "take (length (vp_near r k pre)) tmp = vp_near r k pre"
    and "take (length (vp_far r k pre)) (drop A tmp) = vp_far r k pre"
  shows "vp_place r k xs tmp (length (vp_near r k pre)) (A + length (vp_far r k pre))
     = Inr (vp_near r k (pre @ xs) @ vp_far r k (pre @ xs), A, A + B)"
  using assms
proof (induction xs arbitrary: pre tmp)
  case Nil
  have "tmp = take A tmp @ drop A tmp" by simp
  also have "take A tmp = vp_near r k pre" using Nil by simp
  also have "drop A tmp = vp_far r k pre" using Nil by simp
  finally show ?case using Nil by simp
next
  case (Cons x xs)
  let ?n = "length (vp_near r k pre)" and ?f = "length (vp_far r k pre)"
  show ?case
  proof (cases "x = r")
    case True
    then have e: "vp_near r k (pre @ [x]) = vp_near r k pre" "vp_far r k (pre @ [x]) = vp_far r k pre"
      by (simp_all add: vp_near_def vp_far_def)
    have "vp_place r k xs tmp (length (vp_near r k (pre @ [x]))) (A + length (vp_far r k (pre @ [x])))
      = Inr (vp_near r k ((pre @ [x]) @ xs) @ vp_far r k ((pre @ [x]) @ xs), A, A + B)"
      using Cons.prems by (intro Cons.IH) (simp_all add: e)
    then show ?thesis using True e by simp
  next
    case False
    show ?thesis
    proof (cases "distance r x \<le> k")
      case True
      then have e: "vp_near r k (pre @ [x]) = vp_near r k pre @ [x]" "vp_far r k (pre @ [x]) = vp_far r k pre"
        using False by (simp_all add: vp_near_def vp_far_def)
      have "length (vp_near r k (pre @ x # xs)) = Suc ?n + length (vp_near r k xs)"
        using False True by (simp add: vp_near_def)
      then have lt: "?n < A" using Cons.prems(2) by simp
      then have lt': "?n < length tmp" using Cons.prems(1) by simp
      have t1: "take (Suc ?n) (tmp[?n := x]) = vp_near r k pre @ [x]"
        using lt' Cons.prems(4) by (simp add: take_Suc_conv_app_nth)
      have t2: "take ?f (drop A (tmp[?n := x])) = vp_far r k pre"
        using lt Cons.prems(5) by (simp add: drop_update_cancel)
      have "vp_place r k xs (tmp[?n := x]) (length (vp_near r k (pre @ [x]))) (A + length (vp_far r k (pre @ [x])))
        = Inr (vp_near r k ((pre @ [x]) @ xs) @ vp_far r k ((pre @ [x]) @ xs), A, A + B)"
        using Cons.prems(1-3) t1 t2 by (intro Cons.IH) (simp_all add: e)
      then show ?thesis using False True lt' by (simp add: e)
    next
      case far: False
      then have e: "vp_near r k (pre @ [x]) = vp_near r k pre" "vp_far r k (pre @ [x]) = vp_far r k pre @ [x]"
        using False by (simp_all add: vp_near_def vp_far_def)
      have "length (vp_far r k (pre @ x # xs)) = Suc ?f + length (vp_far r k xs)"
        using False far by (simp add: vp_far_def)
      then have lt: "?f < B" using Cons.prems(3) by simp
      then have lt': "A + ?f < length tmp" using Cons.prems(1) by simp
      have "length (vp_near r k (pre @ x # xs)) = ?n + length (vp_near r k xs)"
        using False far by (simp add: vp_near_def)
      then have nA: "?n \<le> A" using Cons.prems(2) by simp
      have t1: "take ?n (tmp[A + ?f := x]) = vp_near r k pre"
        using nA Cons.prems(4) by (simp add: take_update_cancel)
      have "take (Suc ?f) ((drop A tmp)[?f := x]) = take ?f (drop A tmp) @ [x]"
        using lt' by (simp add: take_Suc_conv_app_nth)
      then have t2: "take (Suc ?f) (drop A (tmp[A + ?f := x])) = vp_far r k pre @ [x]"
        using Cons.prems(5) by (simp add: drop_update_swap)
      have "vp_place r k xs (tmp[A + ?f := x]) (length (vp_near r k (pre @ [x]))) (A + length (vp_far r k (pre @ [x])))
        = Inr (vp_near r k ((pre @ [x]) @ xs) @ vp_far r k ((pre @ [x]) @ xs), A, A + B)"
        using Cons.prems(1-3) t1 t2 by (intro Cons.IH) (simp_all add: e)
      then show ?thesis using False far lt' by (simp add: e)
    qed
  qed
qed

lemma vp_counts:
  assumes "k \<le> MAX_DISTANCE"
  shows "dcnt_of r ks ! k - dcnt_of r ks ! 0 = length (vp_near r k ks)"
    and "length ks - dcnt_of r ks ! k = length (vp_far r k ks)"
proof -
  have "length (filter (\<lambda>x. distance r x \<le> k) ks)
      = length (filter (\<lambda>x. x = r) ks) + length (vp_near r k ks)"
    unfolding vp_near_def by (induction ks) (auto simp: distance_self)
  then show "dcnt_of r ks ! k - dcnt_of r ks ! 0 = length (vp_near r k ks)"
    using assms by (simp add: dcnt_of_nth dcnt_of_0)
  have "length ks = length (filter (\<lambda>x. distance r x \<le> k) ks) + length (vp_far r k ks)"
    unfolding vp_far_def by (induction ks) (auto simp: distance_self)
  then show "length ks - dcnt_of r ks ! k = length (vp_far r k ks)"
    using assms by (simp add: dcnt_of_nth)
qed

definition vp_opt :: "bkey list \<Rightarrow> nat \<Rightarrow> error + vptree option" where
  "vp_opt ks ml = (if ks \<noteq> [] then map_sum id Some (mktree_vp ks ml) else Inr None)"

lemma mktree_vp_node:
  assumes n: "\<not> (length (r # ks) \<le> ml \<or> length (r # ks) \<le> 1)"
  shows "mktree_vp (r # ks) ml =
     (case vp_threshold (dcnt_of r ks) (length ks) of
        Inl e \<Rightarrow> Inl e
      | Inr k \<Rightarrow>
          (case vp_opt (vp_near r k ks) ml of
             Inl e \<Rightarrow> Inl e
           | Inr near \<Rightarrow>
               (case vp_opt (vp_far r k ks) ml of
                  Inl e \<Rightarrow> Inl e
                | Inr far \<Rightarrow> Inr (VP_Node k r near far))))"
proof (cases "vp_threshold (dcnt_of r ks) (length ks)")
  case (Inl e)
  then show ?thesis using n
    by (simp add: mktree_vp.simps [of "r # ks"] Let_def dcnt_of_last)
next
  case (Inr k)
  have k: "k \<le> MAX_DISTANCE" using Inr by (rule vp_threshold_le)
  let ?A = "length (vp_near r k ks)" and ?B = "length (vp_far r k ks)"
  have "vp_place r k ks (replicate (?A + ?B) 0) (length (vp_near r k [])) (?A + length (vp_far r k []))
      = Inr (vp_near r k ([] @ ks) @ vp_far r k ([] @ ks), ?A, ?A + ?B)"
    by (rule vp_place_result) (simp_all add: vp_near_def vp_far_def)
  then have p: "vp_place r k ks (replicate (?A + ?B) 0) 0 ?A
      = Inr (vp_near r k ks @ vp_far r k ks, ?A, ?A + ?B)"
    by (simp add: vp_near_def vp_far_def)
  show ?thesis using n
    by (simp add: mktree_vp.simps [of "r # ks"] Let_def dcnt_of_last Inr vp_counts [OF k] p vp_opt_def
        cong: sum.case_cong)
qed

definition vp_built :: "bkey list \<Rightarrow> nat \<Rightarrow> vptree \<Rightarrow> bool" where
  "vp_built keys max_linear t \<longleftrightarrow>
     vp_wf t \<and> set (vp_keys t) = set keys \<and> mset (vp_keys t) \<subseteq># mset keys
     \<and> list_all (leaf_ok max_linear) (vp_leaves t)
     \<and> ((\<exists>l. t = VP_Leaf l) \<longleftrightarrow> length keys \<le> max_linear \<or> length keys \<le> 1)"

definition vp_oleaves :: "vptree option \<Rightarrow> bkey list list" where
  "vp_oleaves ot = (case ot of None \<Rightarrow> [] | Some t \<Rightarrow> vp_leaves t)"

definition vp_owf :: "vptree option \<Rightarrow> bool" where
  "vp_owf ot = (case ot of None \<Rightarrow> True | Some t \<Rightarrow> vp_wf t)"

lemma vp_opt_built:
  assumes "vp_opt xs ml = Inr ot"
    and "\<And>t. xs \<noteq> [] \<Longrightarrow> mktree_vp xs ml = Inr t \<Longrightarrow> vp_built xs ml t"
  shows "vp_owf ot \<and> set (vp_okeys ot) = set xs \<and> mset (vp_okeys ot) \<subseteq># mset xs
     \<and> list_all (leaf_ok ml) (vp_oleaves ot)"
proof (cases "xs = []")
  case True
  then show ?thesis using assms(1) by (auto simp: vp_opt_def vp_owf_def vp_okeys_def vp_oleaves_def)
next
  case False
  then obtain t where t: "mktree_vp xs ml = Inr t" "ot = Some t"
    using assms(1) by (cases "mktree_vp xs ml") (auto simp: vp_opt_def)
  from assms(2) [OF False t(1)] show ?thesis
    by (simp add: t(2) vp_built_def vp_owf_def vp_okeys_def vp_oleaves_def)
qed

lemma mset_near_far: "mset (vp_near r k ks) + mset (vp_far r k ks) = mset (filter (\<lambda>x. x \<noteq> r) ks)"
  unfolding vp_near_def vp_far_def by (induction ks) auto

lemma set_near_far: "set (vp_near r k ks) \<union> set (vp_far r k ks) = {x \<in> set ks. x \<noteq> r}"
  unfolding vp_near_def vp_far_def by auto

lemma mktree_vp_built: "mktree_vp keys ml = Inr t \<Longrightarrow> vp_built keys ml t"
proof (induction "length keys" arbitrary: keys t rule: less_induct)
  case less
  have ne: "keys \<noteq> []" using less.prems by (auto simp: mktree_vp.simps [of keys])
  show ?case
  proof (cases "length keys \<le> ml \<or> length keys \<le> 1")
    case True
    then have "t = VP_Leaf keys" using less.prems ne by (simp add: mktree_vp.simps [of keys])
    then show ?thesis using True ne
      by (auto simp: vp_built_def leaf_ok_def Suc_le_eq)
  next
    case False
    obtain r ks where keys: "keys = r # ks" using ne by (cases keys) auto
    from less.prems [unfolded keys mktree_vp_node [OF False [unfolded keys]]]
    obtain k near far where k: "vp_threshold (dcnt_of r ks) (length ks) = Inr k"
      and near: "vp_opt (vp_near r k ks) ml = Inr near"
      and far: "vp_opt (vp_far r k ks) ml = Inr far"
      and t: "t = VP_Node k r near far"
      by (auto split: sum.splits)
    have kl: "k \<le> MAX_DISTANCE" using k by (rule vp_threshold_le)
    have n: "vp_owf near \<and> set (vp_okeys near) = set (vp_near r k ks)
        \<and> mset (vp_okeys near) \<subseteq># mset (vp_near r k ks) \<and> list_all (leaf_ok ml) (vp_oleaves near)"
      using near by (rule vp_opt_built) (rule less.hyps, simp_all add: keys vp_near_def less_Suc_eq_le)
    have f: "vp_owf far \<and> set (vp_okeys far) = set (vp_far r k ks)
        \<and> mset (vp_okeys far) \<subseteq># mset (vp_far r k ks) \<and> list_all (leaf_ok ml) (vp_oleaves far)"
      using far by (rule vp_opt_built) (rule less.hyps, simp_all add: keys vp_far_def less_Suc_eq_le)
    have wf: "vp_wf t"
      using n f kl unfolding t
      by (auto simp: vp_owf_def vp_okeys_def vp_near_def vp_far_def not_le split: option.splits)
    have kt: "vp_keys t = vp_okeys near @ [r] @ vp_okeys far"
      unfolding t by (rule vp_keys_node)
    have st: "set (vp_keys t) = set keys"
      unfolding kt keys using n f set_near_far [of r k ks] by auto
    have "mset (vp_okeys near) + mset (vp_okeys far) \<subseteq># mset (vp_near r k ks) + mset (vp_far r k ks)"
      using n f by (intro subset_mset.add_mono) simp_all
    also have "\<dots> \<subseteq># mset ks" unfolding mset_near_far by simp
    finally have ms: "mset (vp_keys t) \<subseteq># mset keys" unfolding kt keys by simp
    have lv: "list_all (leaf_ok ml) (vp_leaves t)"
      using n f unfolding t by (simp add: vp_oleaves_def split: option.splits)
    show ?thesis using wf st ms lv False by (simp add: vp_built_def t)
  qed
qed

lemma vp_scan_none:
  assumes "\<forall>j. 1 \<le> j \<and> j \<le> MAX_DISTANCE \<longrightarrow> dcnt ! j \<le> median"
  shows "vp_scan dcnt median 1 = Suc MAX_DISTANCE"
proof -
  have s: "vp_scan dcnt median 1 \<le> Suc MAX_DISTANCE"
    "vp_scan dcnt median 1 \<le> MAX_DISTANCE \<longrightarrow> median < dcnt ! vp_scan dcnt median 1"
    "1 \<le> vp_scan dcnt median 1"
    using vp_scan_spec [of 1 dcnt median] by simp_all
  show ?thesis
  proof (rule ccontr)
    assume "vp_scan dcnt median 1 \<noteq> Suc MAX_DISTANCE"
    then have "vp_scan dcnt median 1 \<le> MAX_DISTANCE" using s(1) by simp
    then show False using s(2,3) assms by (simp add: not_le [symmetric])
  qed
qed

lemma vp_scan_some:
  assumes "1 \<le> j" "j \<le> MAX_DISTANCE" "median < dcnt ! j"
  shows "vp_scan dcnt median 1 \<le> MAX_DISTANCE"
proof (rule ccontr)
  assume "\<not> vp_scan dcnt median 1 \<le> MAX_DISTANCE"
  then have "j < vp_scan dcnt median 1" using assms(2) by simp
  then have "dcnt ! j \<le> median" using vp_scan_spec [of 1 dcnt median] assms(1) by simp
  then show False using assms(3) by simp
qed

lemma median_lt: "(z::nat) \<le> n \<Longrightarrow> z + (n - z) div 2 < n \<longleftrightarrow> z \<noteq> n"
  by presburger

lemma vp_median_lt:
  "median_of r ks < length ks \<longleftrightarrow> (\<exists>x\<in>set ks. x \<noteq> r)"
  if "median_of = (\<lambda>r ks. dcnt_of r ks ! 0 + (length ks - dcnt_of r ks ! 0) div 2)"
proof -
  let ?z = "length (filter (\<lambda>k. k = r) ks)"
  have z: "?z \<le> length ks" by simp
  have "?z = length ks \<longleftrightarrow> (\<forall>x\<in>set ks. x = r)"
  proof (induction ks)
    case Nil
    then show ?case by simp
  next
    case (Cons a ks)
    have "length (filter (\<lambda>k. k = r) ks) \<noteq> Suc (length ks)"
      by (metis length_filter_le Suc_n_not_le_n)
    then show ?case using Cons by auto
  qed
  moreover have "?z + (length ks - ?z) div 2 < length ks \<longleftrightarrow> ?z \<noteq> length ks"
    by (rule median_lt) (rule length_filter_le)
  ultimately show ?thesis unfolding that by (auto simp: dcnt_of_0)
qed

lemma vp_threshold_ok_iff:
  "(\<exists>k. vp_threshold (dcnt_of r ks) (length ks) = Inr k) \<longleftrightarrow> (\<exists>x\<in>set ks. x \<noteq> r)"
proof -
  let ?dcnt = "dcnt_of r ks"
  let ?median = "?dcnt ! 0 + (length ks - ?dcnt ! 0) div 2"
  have m: "?median < length ks \<longleftrightarrow> (\<exists>x\<in>set ks. x \<noteq> r)"
    by (rule vp_median_lt) simp
  show ?thesis
  proof
    assume "\<exists>k. vp_threshold ?dcnt (length ks) = Inr k"
    then have "vp_scan ?dcnt ?median 1 \<le> MAX_DISTANCE"
      by (auto simp: vp_threshold_def Let_def not_less split: if_splits)
    then have "?median < ?dcnt ! vp_scan ?dcnt ?median 1"
      using vp_scan_spec [of 1 ?dcnt ?median] by simp
    also have "\<dots> \<le> ?dcnt ! MAX_DISTANCE"
      using \<open>vp_scan ?dcnt ?median 1 \<le> MAX_DISTANCE\<close> by (intro dcnt_of_mono) simp_all
    finally show "\<exists>x\<in>set ks. x \<noteq> r" using m by (simp add: dcnt_of_last)
  next
    assume "\<exists>x\<in>set ks. x \<noteq> r"
    then have "?median < ?dcnt ! MAX_DISTANCE" using m by (simp add: dcnt_of_last)
    then have "vp_scan ?dcnt ?median 1 \<le> MAX_DISTANCE"
      by (intro vp_scan_some [of MAX_DISTANCE]) (simp_all add: MAX_DISTANCE_def)
    then show "\<exists>k. vp_threshold ?dcnt (length ks) = Inr k"
      by (simp add: vp_threshold_def Let_def not_less [symmetric])
  qed
qed

lemma mktree_vp_distinct:
  "keys \<noteq> [] \<Longrightarrow> distinct keys \<Longrightarrow> \<exists>t. mktree_vp keys ml = Inr t"
proof (induction "length keys" arbitrary: keys rule: less_induct)
  case less
  show ?case
  proof (cases "length keys \<le> ml \<or> length keys \<le> 1")
    case True
    then show ?thesis using less.prems by (simp add: mktree_vp.simps [of keys])
  next
    case False
    obtain r ks where keys: "keys = r # ks" using less.prems by (cases keys) auto
    have "ks \<noteq> []" using False keys by auto
    then have "\<exists>x\<in>set ks. x \<noteq> r" using less.prems(2) keys by (cases ks) auto
    then obtain k where k: "vp_threshold (dcnt_of r ks) (length ks) = Inr k"
      using vp_threshold_ok_iff [of r ks] by blast
    have sub: "\<exists>ot. vp_opt xs ml = Inr ot" if "distinct xs" "length xs \<le> length ks" for xs
    proof (cases "xs = []")
      case True
      then show ?thesis by (simp add: vp_opt_def)
    next
      case False
      then have "\<exists>t. mktree_vp xs ml = Inr t"
        using that by (intro less.hyps) (simp_all add: keys)
      then show ?thesis using False by (auto simp: vp_opt_def)
    qed
    obtain near where near: "vp_opt (vp_near r k ks) ml = Inr near"
      using sub [of "vp_near r k ks"] less.prems(2) by (auto simp: keys vp_near_def)
    obtain far where far: "vp_opt (vp_far r k ks) ml = Inr far"
      using sub [of "vp_far r k ks"] less.prems(2) by (auto simp: keys vp_far_def)
    show ?thesis
      unfolding keys mktree_vp_node [OF False [unfolded keys]] by (simp add: k near far)
  qed
qed

lemma filter_eq_upt: "m \<le> a \<Longrightarrow> a < n \<Longrightarrow> filter (\<lambda>j. a = j) [m..<n] = [a]"
proof (induction n)
  case 0 then show ?case by simp
next
  case (Suc n)
  then show ?case by (cases "a = n") (auto simp: filter_empty_conv)
qed

lemma distance_0_1: "distance 0 1 = 1" by (simp add: distance_def)
lemma distance_5_5: "distance 5 5 = 0" by (simp add: distance_def)
lemma distance_5_6: "distance 5 6 = 2" by (simp add: distance_def)
lemma distance_8_1_2: "distance 8 1 = 2" "distance 8 2 = 2" by (simp_all add: distance_def)

lemma mktree_bk_0_1: "mktree_bk [0, 1] 1 = Inr (BK_Node 0 [(1, BK_Leaf [1])])"
proof -
  have "mktree_bk [0, 1] 1
     = Inr (BK_Node 0 (map (\<lambda>j. (j, BK_Leaf [1])) (filter (\<lambda>j. bucket 0 [1] j \<noteq> []) [1..<Suc MAX_DISTANCE])))"
    by (rule mktree_bk_node) (auto simp: bucket_def distance_0_1 mktree_bk.simps split: if_splits)
  moreover have "filter (\<lambda>j. bucket 0 [1] j \<noteq> []) [1..<Suc MAX_DISTANCE] = [1]"
    using filter_eq_upt [of 1 1 "Suc MAX_DISTANCE"] by (simp add: bucket_def distance_0_1 MAX_DISTANCE_def del: upt_Suc)
  ultimately show ?thesis by simp
qed

lemma mktree_bk_5_5: "mktree_bk [5, 5] 1 = Inr (BK_Node 5 [])"
proof -
  have "mktree_bk [5, 5] 1
     = Inr (BK_Node 5 (map (\<lambda>j. (j, BK_Leaf [])) (filter (\<lambda>j. bucket 5 [5] j \<noteq> []) [1..<Suc MAX_DISTANCE])))"
    by (rule mktree_bk_node) (auto simp: bucket_def distance_5_5)
  moreover have "filter (\<lambda>j. bucket 5 [5] j \<noteq> []) [1..<Suc MAX_DISTANCE] = []"
    by (auto simp: bucket_def distance_5_5 filter_empty_conv simp del: upt_Suc)
  ultimately show ?thesis by simp
qed

lemma vp_threshold_5_5_6: "vp_threshold (dcnt_of 5 [5, 6]) (length [5, 6 :: bkey]) = Inr 1"
proof -
  have 0: "dcnt_of 5 [5, 6] ! 0 = 1" by (simp add: dcnt_of_nth distance_5_5 distance_5_6)
  have 1: "dcnt_of 5 [5, 6] ! 1 = 1" by (simp add: dcnt_of_nth distance_5_5 distance_5_6 MAX_DISTANCE_def)
  have 2: "dcnt_of 5 [5, 6] ! 2 = 2" by (simp add: dcnt_of_nth distance_5_5 distance_5_6 MAX_DISTANCE_def)
  have s: "vp_scan (dcnt_of 5 [5, 6]) 1 1 = 2"
    by (simp add: vp_scan.simps [of _ _ 1] vp_scan.simps [of _ _ 2] 1 2 MAX_DISTANCE_def del: One_nat_def)
  show ?thesis by (simp add: vp_threshold_def Let_def 0 1 2 s MAX_DISTANCE_def del: One_nat_def)
qed

lemma mktree_vp_5_5_6: "mktree_vp [5, 5, 6] 1 = Inr (VP_Node 1 5 None (Some (VP_Leaf [6])))"
proof -
  have l: "mktree_vp [6] 1 = Inr (VP_Leaf [6])" by (simp add: mktree_vp.simps)
  have n: "\<not> (length [5, 5, 6 :: bkey] \<le> 1 \<or> length [5, 5, 6 :: bkey] \<le> 1)" by simp
  show ?thesis unfolding mktree_vp_node [OF n] vp_threshold_5_5_6
    using l by (simp add: vp_near_def vp_far_def vp_opt_def distance_5_5 distance_5_6 del: One_nat_def)
qed

lemma mktree_vp_all_equal:
  assumes "ks \<noteq> []" "\<forall>x\<in>set ks. x = r" "\<not> Suc (length ks) \<le> ml"
  shows "mktree_vp (r # ks) ml = Inl OutOfBounds"
proof -
  have "\<not> (\<exists>k. vp_threshold (dcnt_of r ks) (length ks) = Inr k)"
    using assms(2) by (simp add: vp_threshold_ok_iff)
  moreover have "vp_threshold (dcnt_of r ks) (length ks) = Inl OutOfBounds
      \<or> (\<exists>k. vp_threshold (dcnt_of r ks) (length ks) = Inr k)"
    by (simp add: vp_threshold_def Let_def)
  ultimately have "vp_threshold (dcnt_of r ks) (length ks) = Inl OutOfBounds"
    by blast
  moreover have "\<not> (length (r # ks) \<le> ml \<or> length (r # ks) \<le> 1)"
    using assms(1,3) by (cases ks) auto
  ultimately show ?thesis by (simp add: mktree_vp_node)
qed

lemma mktree_vp_5_5: "mktree_vp [5, 5] 1 = Inl OutOfBounds"
  by (rule mktree_vp_all_equal) simp_all

lemma query_vp_5_5_6: "query_vp b0 (VP_Node 1 5 None (Some (VP_Leaf [6]))) 5 1 = (\<lparr>bkeys = [5], ba = 16\<rparr>, 1)"
  by (simp add: b0_def Let_def distance_5_5 distance_5_6 uadd_def addkey_def distance_sym [of 5 6])

lemma query_bk_5_5: "query_bk b0 (BK_Node 5 []) 5 0 = (\<lparr>bkeys = [5], ba = 16\<rparr>, 1)"
  by (simp add: b0_def Let_def distance_5_5 uadd_def addkey_def)

lemma query_linear_5_5: "query_linear b0 (mktree_linear [5, 5] 1) 5 0 = (\<lparr>bkeys = [5, 5], ba = 16\<rparr>, 2)"
  by (simp add: b0_def query_linear_def mktree_linear_def distance_5_5 addkey_def)

lemma linear_result_eq: "linear_result b keys ml ref maxd = matches ref maxd keys"
  by (simp add: linear_result_def appended_query_linear)

lemma bk_result_eq: "maxd \<le> MAX_DISTANCE \<Longrightarrow> bk_wf t \<Longrightarrow> bk_result b t ref maxd = matches ref maxd (bk_keys t)"
  by (simp add: bk_result_def appended_def query_bk_correct)

lemma vp_result_eq: "maxd \<le> MAX_DISTANCE \<Longrightarrow> vp_wf t \<Longrightarrow> vp_result b t ref maxd = matches ref maxd (vp_keys t)"
  by (simp add: vp_result_def appended_def query_vp_correct)

lemma mset_eq_of_distinct:
  assumes "distinct ys" "set xs = set ys" "mset xs \<subseteq># mset ys"
  shows "mset xs = mset ys"
proof (rule multiset_eqI)
  fix a
  have le: "count (mset xs) a \<le> count (mset ys) a" using assms(3) by (rule mset_subset_eq_count)
  show "count (mset xs) a = count (mset ys) a"
  proof (cases "a \<in> set ys")
    case True
    then have "count (mset ys) a = 1" using assms(1) by (simp add: distinct_count_atmost_1)
    moreover have "0 < count (mset xs) a" using True assms(2) by simp
    ultimately show ?thesis using le by linarith
  next
    case False
    then have "a \<notin> set xs" using assms(2) by simp
    then have "count (mset xs) a = 0" by (simp add: count_eq_zero_iff)
    moreover have "count (mset ys) a = 0" using False by (simp add: count_eq_zero_iff)
    ultimately show ?thesis by linarith
  qed
qed

lemma matches_stored:
  assumes "set xs = set keys" "mset xs \<subseteq># mset keys"
  shows "set (matches ref maxd xs) = set (matches ref maxd keys)
     \<and> mset (matches ref maxd xs) \<subseteq># mset (matches ref maxd keys)
     \<and> (distinct keys \<longrightarrow> mset (matches ref maxd xs) = mset (matches ref maxd keys))"
proof -
  have "mset (matches ref maxd xs) \<subseteq># mset (matches ref maxd keys)"
    unfolding matches_def mset_filter using assms(2) by (rule multiset_filter_mono)
  moreover have "mset (matches ref maxd xs) = mset (matches ref maxd keys)" if "distinct keys"
    using mset_eq_of_distinct [OF that assms] by (simp add: matches_def)
  ultimately show ?thesis using assms(1) by (auto simp: matches_def)
qed

lemma mktree_bk_Inr: "mktree_bk keys ml = Inr t \<Longrightarrow> keys \<noteq> [] \<and> bk_built keys ml t"
proof -
  assume t: "mktree_bk keys ml = Inr t"
  then have "keys \<noteq> []" by (auto simp: mktree_bk.simps [of keys])
  then show ?thesis using mktree_bk_built [of keys ml] t by auto
qed

lemma matches_0: "matches ref 0 ks = filter (\<lambda>k. k = ref) ks"
  unfolding matches_def by (rule filter_cong) (auto simp: distance_eq_0)

lemma mset_concat_concat:
  "mset (concat (concat (map g xs))) = (\<Sum>x\<leftarrow>xs. mset (concat (g x)))"
  by (induction xs) simp_all

lemma mset_concat_map: "mset (concat (map g xs)) = (\<Sum>x\<leftarrow>xs. mset (g x))"
  by (induction xs) simp_all

lemma bk_keys_split: "mset (bk_keys t) = mset (bk_centres t) + mset (concat (bk_leaves t))"
proof (induction t)
  case (BK_Leaf keys)
  then show ?case by simp
next
  case (BK_Node key child)
  have "(\<Sum>p\<leftarrow>child. mset (bk_keys (snd p)))
      = (\<Sum>p\<leftarrow>child. mset (bk_centres (snd p)) + mset (concat (bk_leaves (snd p))))"
  proof (rule arg_cong [where f = sum_list], rule map_cong [OF refl])
    fix p assume "p \<in> set child"
    moreover have "snd p \<in> Basic_BNFs.snds p" by (cases p) simp
    ultimately show "mset (bk_keys (snd p)) = mset (bk_centres (snd p)) + mset (concat (bk_leaves (snd p)))"
      by (rule BK_Node.IH)
  qed
  then show ?case by (simp add: mset_concat_concat mset_concat_map sum_list_addf)
qed

lemma vp_keys_split: "mset (vp_keys t) = mset (vp_vantages t) + mset (concat (vp_leaves t))"
  by (induction t) (auto split: option.splits)

lemma set_mset_eq: "mset xs = mset ys \<Longrightarrow> set xs = set ys"
  by (rule mset_eq_setD)

lemma mktree_vp_Inr: "mktree_vp keys ml = Inr t \<Longrightarrow> keys \<noteq> []"
  by (auto simp: mktree_vp.simps [of keys])

lemma bk_stored:
  assumes "mktree_bk keys ml = Inr t"
  shows "bk_wf t" "set (bk_keys t) = set keys" "mset (bk_keys t) \<subseteq># mset keys"
  using mktree_bk_Inr [OF assms] by (simp_all add: bk_built_def)

lemma vp_stored:
  assumes "mktree_vp keys ml = Inr t"
  shows "vp_wf t" "set (vp_keys t) = set keys" "mset (vp_keys t) \<subseteq># mset keys"
  using mktree_vp_built [OF assms] by (simp_all add: vp_built_def)

lemma distinct_0137: "distinct [0, 1, 3, 7 :: bkey]"
  by simp

section \<open>Further facts used by the claims\<close>

lemma stored_once:
  assumes "set ks = set keys" "mset ks \<subseteq># mset keys" "mset ks = mset cs + mset ls"
  shows "set (cs @ ls) = set keys \<and> mset (cs @ ls) \<subseteq># mset keys
     \<and> (distinct keys \<longrightarrow> mset (cs @ ls) = mset keys)"
proof -
  have e: "mset (cs @ ls) = mset ks" using assms(3) by simp
  then have "set (cs @ ls) = set ks" by (rule mset_eq_setD)
  moreover have "mset ks = mset keys" if "distinct keys"
    using that assms(1,2) by (rule mset_eq_of_distinct)
  ultimately show ?thesis using assms(1,2) e by simp
qed

lemma mktree_vp_Node_threshold:
  assumes "mktree_vp keys max_linear = Inr (VP_Node k vantage near far)"
  shows "keys \<noteq> [] \<and> vantage = hd keys \<and> tl keys \<noteq> []
     \<and> vp_threshold (dcnt_of (hd keys) (tl keys)) (length (tl keys)) = Inr k"
proof -
  have ne: "keys \<noteq> []" using assms by (rule mktree_vp_Inr)
  then obtain r ks where keys: "keys = r # ks" by (cases keys) auto
  have n: "\<not> (length (r # ks) \<le> max_linear \<or> length (r # ks) \<le> 1)"
    using assms unfolding keys by (auto simp: mktree_vp.simps [of "r # ks"])
  from assms [unfolded keys mktree_vp_node [OF n]]
  have "vp_threshold (dcnt_of r ks) (length ks) = Inr k \<and> vantage = r"
    by (auto split: sum.splits)
  then show ?thesis using n by (auto simp: keys)
qed

lemma vp_threshold_Inr:
  assumes "vp_threshold dcnt n = Inr k"
  defines "median \<equiv> dcnt ! 0 + (n - dcnt ! 0) div 2"
  shows "\<exists>k0. 1 \<le> k0 \<and> k0 \<le> MAX_DISTANCE \<and> median < dcnt ! k0
        \<and> (\<forall>j<k0. dcnt ! j \<le> median)
        \<and> k = (if k0 \<noteq> 1 \<and> median - dcnt ! (k0 - 1) \<le> dcnt ! k0 - median then k0 - 1 else k0)"
proof -
  define s where "s = vp_scan dcnt median 1"
  note e = assms(1) [unfolded vp_threshold_def Let_def, folded median_def, folded s_def]
  have a1: "\<not> MAX_DISTANCE < s" using e by (cases "MAX_DISTANCE < s") simp_all
  have a2: "k = (if s \<noteq> 1 \<and> median - dcnt ! (s - 1) \<le> dcnt ! s - median then s - 1 else s)"
  proof (cases "s \<noteq> 1 \<and> median - dcnt ! (s - 1) \<le> dcnt ! s - median")
    case True
    from e have "(Inr (s - 1) :: error + nat) = Inr k"
      unfolding if_not_P [OF a1] if_P [OF True] .
    then show ?thesis unfolding if_P [OF True] by simp
  next
    case False
    from e have "(Inr s :: error + nat) = Inr k"
      unfolding if_not_P [OF a1] if_not_P [OF False] .
    then show ?thesis unfolding if_not_P [OF False] by simp
  qed
  note a = a1 a2
  have sp: "1 \<le> s" "median < dcnt ! s" "\<And>j. 1 \<le> j \<Longrightarrow> j < s \<Longrightarrow> dcnt ! j \<le> median"
    using vp_scan_spec [of 1 dcnt median] a(1) unfolding s_def by simp_all
  have "dcnt ! j \<le> median" if "j < s" for j
  proof (cases j)
    case 0
    then show ?thesis by (simp add: median_def)
  next
    case (Suc i)
    then show ?thesis using sp(3) [of j] that by simp
  qed
  then show ?thesis using a sp(1,2) by (intro exI [of _ s]) simp
qed

lemma dcnt_812: "dcnt_of 8 [1, 2] ! 1 = 0" "dcnt_of 8 [1, 2] ! 2 = 2" "dcnt_of 8 [1, 2] ! Suc 0 = 0"
  by (simp_all add: dcnt_of_nth distance_8_1_2 MAX_DISTANCE_def)

section \<open>Tree queries against the linear scan\<close>

text \<open>
  Claim C1 (amended).  For every non-empty key array, every \<open>max_linear\<close>, every reference key
  and every \<open>maxd \<le> 32\<close>: \<open>mktree_bk\<close> returns a tree, and \<open>mktree_vp\<close> returns one whenever the
  keys are pairwise distinct.  A query of a tree they return appends the same set of keys as
  \<open>query_linear\<close> over the same array, no key more often than \<open>query_linear\<close> does, and the same
  multiset of keys when the keys of the array are pairwise distinct.

  The multisets differ when the array repeats a key: the BK child loop starts at distance 1
  and the VP placement loop skips \<^verbatim>\<open>keys[i] == rootkey\<close>, so the copies of a centre or vantage are
  stored once.
\<close>

theorem tree_queries_match_linear:
  assumes "keys \<noteq> []" and "maxd \<le> MAX_DISTANCE"
  shows "(\<exists>t. mktree_bk keys max_linear = Inr t
            \<and> set (bk_result b t ref maxd) = set (linear_result b keys max_linear ref maxd)
            \<and> mset (bk_result b t ref maxd) \<subseteq># mset (linear_result b keys max_linear ref maxd)
            \<and> (distinct keys \<longrightarrow>
                 mset (bk_result b t ref maxd) = mset (linear_result b keys max_linear ref maxd)))
       \<and> (\<forall>t. mktree_vp keys max_linear = Inr t \<longrightarrow>
              set (vp_result b t ref maxd) = set (linear_result b keys max_linear ref maxd)
            \<and> mset (vp_result b t ref maxd) \<subseteq># mset (linear_result b keys max_linear ref maxd)
            \<and> (distinct keys \<longrightarrow>
                 mset (vp_result b t ref maxd) = mset (linear_result b keys max_linear ref maxd)))
       \<and> (distinct keys \<longrightarrow> (\<exists>t. mktree_vp keys max_linear = Inr t))"
proof (intro conjI allI impI)
  obtain t where t: "mktree_bk keys max_linear = Inr t"
    using mktree_bk_built [OF assms(1)] by blast
  show "\<exists>t. mktree_bk keys max_linear = Inr t
            \<and> set (bk_result b t ref maxd) = set (linear_result b keys max_linear ref maxd)
            \<and> mset (bk_result b t ref maxd) \<subseteq># mset (linear_result b keys max_linear ref maxd)
            \<and> (distinct keys \<longrightarrow>
                 mset (bk_result b t ref maxd) = mset (linear_result b keys max_linear ref maxd))"
    using t matches_stored [OF bk_stored(2,3) [OF t], of ref maxd]
    by (auto simp: bk_result_eq [OF assms(2) bk_stored(1) [OF t]] linear_result_eq)
next
  fix t assume t: "mktree_vp keys max_linear = Inr t"
  note m = matches_stored [OF vp_stored(2,3) [OF t], of ref maxd]
  note r = vp_result_eq [OF assms(2) vp_stored(1) [OF t]] linear_result_eq
  show "set (vp_result b t ref maxd) = set (linear_result b keys max_linear ref maxd)"
    using m by (simp add: r)
  show "mset (vp_result b t ref maxd) \<subseteq># mset (linear_result b keys max_linear ref maxd)"
    using m by (simp add: r)
  show "mset (vp_result b t ref maxd) = mset (linear_result b keys max_linear ref maxd)"
    if "distinct keys" using m that by (simp add: r)
next
  assume "distinct keys"
  then show "\<exists>t. mktree_vp keys max_linear = Inr t"
    using assms(1) by (intro mktree_vp_distinct)
qed

theorem tree_queries_match_linear_witness:
  "[0, 1, 3, 7 :: bkey] \<noteq> [] \<and> (1::nat) \<le> MAX_DISTANCE \<and> distinct [0, 1, 3, 7 :: bkey]
   \<and> (\<exists>t. mktree_bk [0, 1, 3, 7] 1 = Inr t
          \<and> mset (bk_result b0 t 0 1) = mset (linear_result b0 [0, 1, 3, 7] 1 0 1))
   \<and> (\<exists>t. mktree_vp [0, 1, 3, 7] 1 = Inr t
          \<and> mset (vp_result b0 t 0 1) = mset (linear_result b0 [0, 1, 3, 7] 1 0 1))"
proof -
  have 1: "[0, 1, 3, 7 :: bkey] \<noteq> []" and 2: "(1::nat) \<le> MAX_DISTANCE"
    by (simp_all add: MAX_DISTANCE_def)
  from tree_queries_match_linear [OF 1 2, of 1 b0 0] distinct_0137 1 2
  show ?thesis by blast
qed

theorem tree_queries_match_linear_counterexample:
  "mktree_vp [5, 5, 6] 1 = Inr (VP_Node 1 5 None (Some (VP_Leaf [6])))
   \<and> vp_result b0 (VP_Node 1 5 None (Some (VP_Leaf [6]))) 5 1 = [5]
   \<and> linear_result b0 [5, 5, 6] 1 5 1 = [5, 5]
   \<and> mset (vp_result b0 (VP_Node 1 5 None (Some (VP_Leaf [6]))) 5 1)
       \<noteq> mset (linear_result b0 [5, 5, 6] 1 5 1)"
proof -
  have "vp_result b0 (VP_Node 1 5 None (Some (VP_Leaf [6]))) 5 1 = [5]"
    by (simp only: vp_result_def appended_def query_vp_5_5_6) (simp add: b0_def)
  moreover have "linear_result b0 [5, 5, 6] 1 5 1 = [5, 5]"
    by (simp add: linear_result_eq matches_def distance_5_5 distance_5_6)
  ultimately show ?thesis using mktree_vp_5_5_6 by simp
qed

section \<open>The keys stored by construction\<close>

text \<open>
  Claim C2 (amended).  For every non-empty key array and every \<open>max_linear\<close>, the keys stored in
  the tree built by \<open>mktree_bk\<close> (and in every tree returned by \<open>mktree_vp\<close>, which returns one
  whenever the keys are pairwise distinct) are the centres (vantages) of its internal nodes
  together with the keys of its leaves.  They are the same set as the keys of the array, no
  key is stored more often than it occurs in the array, and when the keys of the array are
  pairwise distinct every key is stored exactly once.

  The keys of the leaves alone are not all keys: the first key of every range that is split
  becomes the centre (vantage) of the node and goes into no leaf.
\<close>

theorem build_keeps_keys:
  assumes "keys \<noteq> []"
  shows "(\<exists>t. mktree_bk keys max_linear = Inr t
            \<and> set (bk_centres t @ concat (bk_leaves t)) = set keys
            \<and> mset (bk_centres t @ concat (bk_leaves t)) \<subseteq># mset keys
            \<and> (distinct keys \<longrightarrow> mset (bk_centres t @ concat (bk_leaves t)) = mset keys))
       \<and> (\<forall>t. mktree_vp keys max_linear = Inr t \<longrightarrow>
              set (vp_vantages t @ concat (vp_leaves t)) = set keys
            \<and> mset (vp_vantages t @ concat (vp_leaves t)) \<subseteq># mset keys
            \<and> (distinct keys \<longrightarrow> mset (vp_vantages t @ concat (vp_leaves t)) = mset keys))
       \<and> (distinct keys \<longrightarrow> (\<exists>t. mktree_vp keys max_linear = Inr t))"
proof (intro conjI allI impI)
  obtain t where t: "mktree_bk keys max_linear = Inr t"
    using mktree_bk_built [OF assms(1)] by blast
  show "\<exists>t. mktree_bk keys max_linear = Inr t
            \<and> set (bk_centres t @ concat (bk_leaves t)) = set keys
            \<and> mset (bk_centres t @ concat (bk_leaves t)) \<subseteq># mset keys
            \<and> (distinct keys \<longrightarrow> mset (bk_centres t @ concat (bk_leaves t)) = mset keys)"
    using t stored_once [OF bk_stored(2,3) [OF t] bk_keys_split] by blast
next
  fix t assume t: "mktree_vp keys max_linear = Inr t"
  note s = stored_once [OF vp_stored(2,3) [OF t] vp_keys_split]
  show "set (vp_vantages t @ concat (vp_leaves t)) = set keys" using s by blast
  show "mset (vp_vantages t @ concat (vp_leaves t)) \<subseteq># mset keys" using s by blast
  show "mset (vp_vantages t @ concat (vp_leaves t)) = mset keys" if "distinct keys"
    using s that by blast
next
  assume "distinct keys"
  then show "\<exists>t. mktree_vp keys max_linear = Inr t"
    using assms(1) by (intro mktree_vp_distinct)
qed

theorem build_keeps_keys_witness:
  "[0, 1, 3, 7 :: bkey] \<noteq> [] \<and> distinct [0, 1, 3, 7 :: bkey]
   \<and> (\<exists>t. mktree_bk [0, 1, 3, 7] 1 = Inr t
          \<and> mset (bk_centres t @ concat (bk_leaves t)) = mset [0, 1, 3, 7])
   \<and> (\<exists>t. mktree_vp [0, 1, 3, 7] 1 = Inr t
          \<and> mset (vp_vantages t @ concat (vp_leaves t)) = mset [0, 1, 3, 7])"
proof -
  have 1: "[0, 1, 3, 7 :: bkey] \<noteq> []" by simp
  from build_keeps_keys [OF 1, of 1] distinct_0137 1
  show ?thesis by blast
qed

theorem build_keeps_keys_counterexample:
  "mktree_bk [0, 1] 1 = Inr (BK_Node 0 [(1, BK_Leaf [1])])
   \<and> bk_leaves (BK_Node 0 [(1, BK_Leaf [1])]) = [[1]]
   \<and> mset (concat (bk_leaves (BK_Node 0 [(1, BK_Leaf [1])]))) \<noteq> mset [0, 1]"
  using mktree_bk_0_1 by simp

section \<open>Pruning in BK-tree queries\<close>

text \<open>
  Claim C3.  For a BK-tree internal node with centre \<open>key\<close> whose children are ordered by
  strictly increasing bucket distance (each an \<^verbatim>\<open>unsigned short\<close>), and a query \<open>(ref, maxd)\<close> with
  \<open>maxd \<le> 32\<close>, let \<open>d = distance key ref\<close>.  The query appends the centre iff \<open>d \<le> maxd\<close> and then
  recurses, in order, into exactly the children whose bucket distance \<open>c\<close> satisfies
  \<open>d - maxd \<le> c \<le> d + maxd\<close>; and the walk over the child list stops, without recursing, at the
  first child with \<open>c > maxd + d\<close>.
\<close>

theorem query_bk_node:
  assumes "maxd \<le> MAX_DISTANCE"
    and "sorted_wrt (<) (map fst child)"
    and "\<forall>p\<in>set child. fst p < 65536"
  shows "query_bk b (BK_Node key child) ref maxd =
           bk_recurse (if distance key ref \<le> maxd then addkey b key else b)
             (filter (bk_in_range (distance key ref) maxd) child) ref maxd 1
         \<and> (\<forall>b' p ps nc. maxd + distance key ref < fst p \<longrightarrow>
               bk_visit b' (p # ps) ref maxd (distance key ref) nc = (b', nc))"
proof -
  let ?d = "distance key ref"
  have d: "?d \<le> MAX_DISTANCE" by (rule distance_le)
  have u: "uadd maxd ?d = maxd + ?d"
    using assms(1) d by (simp add: uadd_small MAX_DISTANCE_def)
  have 1: "query_bk b (BK_Node key child) ref maxd =
           bk_recurse (if ?d \<le> maxd then addkey b key else b)
             (filter (bk_in_range ?d maxd) child) ref maxd 1"
    using assms by (rule query_bk_node_eq)
  have 2: "bk_visit b' (p # ps) ref maxd ?d nc = (b', nc)" if "maxd + ?d < fst p" for b' p ps nc
    using that by (simp add: u)
  show ?thesis using 1 2 by blast
qed

theorem query_bk_node_witness:
  "(1::nat) \<le> MAX_DISTANCE
   \<and> sorted_wrt (<) (map fst [(1::nat, BK_Leaf [1]), (2, BK_Leaf [3]), (3, BK_Leaf [7])])
   \<and> query_bk b0 (BK_Node 0 [(1, BK_Leaf [1]), (2, BK_Leaf [3]), (3, BK_Leaf [7])]) 0 1
       = bk_recurse (addkey b0 0) [(1, BK_Leaf [1])] 0 1 1
   \<and> bk_visit b0 [(2, BK_Leaf [3]), (3, BK_Leaf [7])] 0 1 (distance 0 0) 1 = (b0, 1)"
proof -
  let ?child = "[(1::nat, BK_Leaf [1]), (2, BK_Leaf [3]), (3, BK_Leaf [7])]"
  have 1: "(1::nat) \<le> MAX_DISTANCE" by (simp add: MAX_DISTANCE_def)
  have 2: "sorted_wrt (<) (map fst ?child)" by simp
  have 3: "\<forall>p\<in>set ?child. fst p < 65536" by simp
  have d: "distance 0 0 = 0" by (rule distance_self)
  have f: "filter (bk_in_range (distance 0 0) 1) ?child = [(1, BK_Leaf [1])]"
    by (simp add: d bk_in_range_def)
  have i: "(if distance 0 0 \<le> (1::nat) then addkey b0 0 else b0) = addkey b0 0"
    by (simp add: d)
  have l: "(1::nat) + distance 0 0 < fst (2::nat, BK_Leaf [3])" by (simp add: d)
  note q = query_bk_node [OF 1 2 3, of b0 0 0]
  have "query_bk b0 (BK_Node 0 ?child) 0 1 = bk_recurse (addkey b0 0) [(1, BK_Leaf [1])] 0 1 1"
    using q [THEN conjunct1] unfolding f i .
  moreover have "bk_visit b0 [(2, BK_Leaf [3]), (3, BK_Leaf [7])] 0 1 (distance 0 0) 1 = (b0, 1)"
    using q [THEN conjunct2] l by blast
  ultimately show ?thesis using 1 2 by blast
qed

section \<open>Pruning in VP-tree queries\<close>

text \<open>
  Claim C4.  For a VP-tree internal node with vantage \<open>vantage\<close> and threshold \<open>threshold\<close> (an
  \<^verbatim>\<open>unsigned short\<close>) and a query \<open>(ref, maxd)\<close> with \<open>maxd \<le> 32\<close>, let \<open>d = distance vantage ref\<close>.
  The near subtree is visited (when present) iff \<open>d \<le> maxd + threshold\<close>, then the vantage is
  appended iff \<open>d \<le> maxd\<close>, then the far subtree is visited (when present) iff
  \<open>d + maxd > threshold\<close>.
\<close>

theorem query_vp_node:
  assumes "maxd \<le> MAX_DISTANCE" and "threshold < 65536"
  shows "query_vp b (VP_Node threshold vantage near far) ref maxd =
     (let d = distance vantage ref;
          r1 = (if d \<le> maxd + threshold then vp_sub (b, 1) near ref maxd else (b, 1));
          r2 = (if d \<le> maxd then (addkey (fst r1) vantage, snd r1) else r1)
      in if d + maxd > threshold then vp_sub r2 far ref maxd else r2)"
  using assms by (rule query_vp_node_eq)

theorem query_vp_node_witness:
  "(1::nat) \<le> MAX_DISTANCE \<and> (1::nat) < 65536
   \<and> query_vp b0 (VP_Node 1 5 None (Some (VP_Leaf [6]))) 5 1
       = (let d = distance 5 5;
              r1 = (if d \<le> 1 + 1 then vp_sub (b0, 1) None 5 1 else (b0, 1));
              r2 = (if d \<le> 1 then (addkey (fst r1) 5, snd r1) else r1)
          in if d + 1 > 1 then vp_sub r2 (Some (VP_Leaf [6])) 5 1 else r2)
   \<and> query_vp b0 (VP_Node 1 5 None (Some (VP_Leaf [6]))) 5 1 = (addkey b0 5, 1)"
proof -
  have 1: "(1::nat) \<le> MAX_DISTANCE" by (simp add: MAX_DISTANCE_def)
  have 2: "(1::nat) < 65536" by simp
  note q = query_vp_node [OF 1 2, of b0 5 None "Some (VP_Leaf [6])" 5]
  have "query_vp b0 (VP_Node 1 5 None (Some (VP_Leaf [6]))) 5 1 = (addkey b0 5, 1)"
    unfolding q by (simp add: Let_def distance_5_5)
  then show ?thesis using q 1 2 by simp
qed

section \<open>The VP-tree threshold\<close>

text \<open>
  Claim C5.  Whenever \<open>mktree_vp\<close> returns an internal node, its vantage is the first key of the
  range, \<open>dcnt\<close> is the cumulative histogram of the distances of the \<open>n\<close> remaining keys to it,
  and with \<open>median = dcnt[0] + (n - dcnt[0]) / 2\<close> the threshold of the node is \<open>k0\<close>, the smallest
  distance whose cumulative count exceeds \<open>median\<close>, or \<open>k0 - 1\<close> when \<open>k0 \<noteq> 1\<close> and
  \<open>median - dcnt[k0 - 1] \<le> dcnt[k0] - median\<close>.
\<close>

theorem vp_threshold_choice:
  assumes "mktree_vp keys max_linear = Inr (VP_Node k vantage near far)"
  shows "let dcnt = dcnt_of (hd keys) (tl keys); n = length (tl keys);
             median = dcnt ! 0 + (n - dcnt ! 0) div 2
         in vantage = hd keys
          \<and> (\<forall>v\<le>MAX_DISTANCE. dcnt ! v = length (filter (\<lambda>x. distance vantage x \<le> v) (tl keys)))
          \<and> (\<exists>k0. 1 \<le> k0 \<and> k0 \<le> MAX_DISTANCE \<and> median < dcnt ! k0
                \<and> (\<forall>j<k0. dcnt ! j \<le> median)
                \<and> k = (if k0 \<noteq> 1 \<and> median - dcnt ! (k0 - 1) \<le> dcnt ! k0 - median
                       then k0 - 1 else k0))"
proof -
  note t = mktree_vp_Node_threshold [OF assms]
  then have v: "vantage = hd keys" by simp
  from t have "vp_threshold (dcnt_of (hd keys) (tl keys)) (length (tl keys)) = Inr k" by simp
  from vp_threshold_Inr [OF this] show ?thesis
    unfolding Let_def v by (simp add: dcnt_of_nth)
qed

theorem vp_threshold_choice_witness:
  "mktree_vp [5, 5, 6] 1 = Inr (VP_Node 1 5 None (Some (VP_Leaf [6])))
   \<and> (let dcnt = dcnt_of (hd [5, 5, 6]) (tl [5, 5, 6]); n = length (tl [5, 5, 6 :: bkey]);
           median = dcnt ! 0 + (n - dcnt ! 0) div 2
       in (\<exists>k0. 1 \<le> k0 \<and> k0 \<le> MAX_DISTANCE \<and> median < dcnt ! k0
                \<and> (1::nat) = (if k0 \<noteq> 1 \<and> median - dcnt ! (k0 - 1) \<le> dcnt ! k0 - median
                       then k0 - 1 else k0)))"
proof -
  from vp_threshold_choice [OF mktree_vp_5_5_6] show ?thesis
    using mktree_vp_5_5_6 unfolding Let_def by blast
qed

section \<open>The counting sort of BK-tree construction\<close>

text \<open>
  Claim C6 (amended).  The counting sort of a BK-tree build step succeeds on every range and
  puts the keys at distance \<open>i\<close> from the centre into the slice of \<^verbatim>\<open>tmp\<close> from index
  \<open>dcnt[i - 1]\<close> up to, not including, index \<open>dcnt[i]\<close>, in the reverse of their order in the input range: the loop
  runs forward over the range and fills every bucket from its end (\<^verbatim>\<open>tmp[--pos[d]] = keys[i]\<close>).
  The sort is therefore not stable.
\<close>

theorem bk_sort_reverses_buckets:
  "\<exists>tmp. bk_place rootkey ks (replicate (length ks) 0) (dcnt_of rootkey ks) = Inr tmp
     \<and> length tmp = length ks
     \<and> (\<forall>i. 1 \<le> i \<and> i \<le> MAX_DISTANCE \<longrightarrow>
          take (dcnt_of rootkey ks ! i - dcnt_of rootkey ks ! (i - 1))
            (drop (dcnt_of rootkey ks ! (i - 1)) tmp)
          = rev (filter (\<lambda>k. distance rootkey k = i) ks))
     \<and> take (dcnt_of rootkey ks ! 0) tmp = rev (filter (\<lambda>k. distance rootkey k = 0) ks)"
  using bk_place_sorted [of rootkey ks] by (simp add: bucket_def)

theorem bk_sort_reverses_buckets_witness:
  "\<exists>tmp. bk_place 8 [1, 2] (replicate (length [1, 2 :: bkey]) 0) (dcnt_of 8 [1, 2]) = Inr tmp
     \<and> take (dcnt_of 8 [1, 2] ! 2 - dcnt_of 8 [1, 2] ! (2 - 1)) (drop (dcnt_of 8 [1, 2] ! (2 - 1)) tmp)
         = rev [1, 2]"
proof -
  have f: "filter (\<lambda>k. distance 8 k = 2) [1, 2 :: bkey] = [1, 2]" by (simp add: distance_8_1_2)
  have i: "(1::nat) \<le> 2 \<and> 2 \<le> MAX_DISTANCE" by (simp add: MAX_DISTANCE_def)
  from bk_sort_reverses_buckets [of 8 "[1, 2]"]
  obtain tmp where "bk_place 8 [1, 2] (replicate (length [1, 2 :: bkey]) 0) (dcnt_of 8 [1, 2]) = Inr tmp"
    and "\<forall>i. 1 \<le> i \<and> i \<le> MAX_DISTANCE \<longrightarrow>
          take (dcnt_of 8 [1, 2] ! i - dcnt_of 8 [1, 2] ! (i - 1)) (drop (dcnt_of 8 [1, 2] ! (i - 1)) tmp)
          = rev (filter (\<lambda>k. distance 8 k = i) [1, 2])"
    by blast
  then have "bk_place 8 [1, 2] (replicate (length [1, 2 :: bkey]) 0) (dcnt_of 8 [1, 2]) = Inr tmp
     \<and> take (dcnt_of 8 [1, 2] ! 2 - dcnt_of 8 [1, 2] ! (2 - 1)) (drop (dcnt_of 8 [1, 2] ! (2 - 1)) tmp)
         = rev (filter (\<lambda>k. distance 8 k = 2) [1, 2])"
    using i by blast
  then show ?thesis unfolding f by blast
qed

theorem bk_sort_not_stable_counterexample:
  "bk_place 8 [1, 2] (replicate (length [1, 2 :: bkey]) 0) (dcnt_of 8 [1, 2]) = Inr [2, 1]
   \<and> take (dcnt_of 8 [1, 2] ! 2 - dcnt_of 8 [1, 2] ! 1) (drop (dcnt_of 8 [1, 2] ! 1) [2, 1 :: bkey])
       = [2, 1]
   \<and> filter (\<lambda>k. distance 8 k = 2) [1, 2 :: bkey] = [1, 2]
   \<and> take (dcnt_of 8 [1, 2] ! 2 - dcnt_of 8 [1, 2] ! 1) (drop (dcnt_of 8 [1, 2] ! 1) [2, 1 :: bkey])
       \<noteq> filter (\<lambda>k. distance 8 k = 2) [1, 2 :: bkey]"
proof -
  obtain tmp where t: "bk_place 8 [1, 2] (replicate (length [1, 2 :: bkey]) 0) (dcnt_of 8 [1, 2]) = Inr tmp"
    and l: "length tmp = length [1, 2 :: bkey]"
    and s: "\<forall>i. 1 \<le> i \<and> i \<le> MAX_DISTANCE \<longrightarrow>
          take (dcnt_of 8 [1, 2] ! i - dcnt_of 8 [1, 2] ! (i - 1)) (drop (dcnt_of 8 [1, 2] ! (i - 1)) tmp)
          = rev (bucket 8 [1, 2] i)"
    using bk_place_sorted [of 8 "[1, 2]"] by blast
  have "(1::nat) \<le> 2 \<and> 2 \<le> MAX_DISTANCE" by (simp add: MAX_DISTANCE_def)
  with s have "take (dcnt_of 8 [1, 2] ! 2 - dcnt_of 8 [1, 2] ! (2 - 1)) (drop (dcnt_of 8 [1, 2] ! (2 - 1)) tmp)
          = rev (bucket 8 [1, 2] 2)" by blast
  then have "tmp = [2, 1]" using l by (simp add: dcnt_812 bucket_def distance_8_1_2 del: One_nat_def)
  then show ?thesis using t by (simp add: dcnt_812 distance_8_1_2 del: One_nat_def)
qed

section \<open>Exact-match queries\<close>

text \<open>
  Claim C8 (amended).  For every non-empty key array, every \<open>max_linear\<close> and every reference
  key, a query with \<open>maxd = 0\<close> of the tree built by \<open>mktree_bk\<close> (and of every tree returned by
  \<open>mktree_vp\<close>, which returns one whenever the keys are pairwise distinct) appends keys equal
  to \<open>ref\<close> only, at least one if the array holds one, never more than the array holds, and
  exactly as many as the array holds when its keys are pairwise distinct.

  A key that occurs several times may be appended fewer times than it occurs: the copies of a
  centre or vantage are stored once.
\<close>

theorem exact_match_query:
  assumes "keys \<noteq> []"
  shows "(\<exists>t. mktree_bk keys max_linear = Inr t
            \<and> set (bk_result b t ref 0) = set (filter (\<lambda>k. k = ref) keys)
            \<and> mset (bk_result b t ref 0) \<subseteq># mset (filter (\<lambda>k. k = ref) keys)
            \<and> (distinct keys \<longrightarrow> mset (bk_result b t ref 0) = mset (filter (\<lambda>k. k = ref) keys)))
       \<and> (\<forall>t. mktree_vp keys max_linear = Inr t \<longrightarrow>
              set (vp_result b t ref 0) = set (filter (\<lambda>k. k = ref) keys)
            \<and> mset (vp_result b t ref 0) \<subseteq># mset (filter (\<lambda>k. k = ref) keys)
            \<and> (distinct keys \<longrightarrow> mset (vp_result b t ref 0) = mset (filter (\<lambda>k. k = ref) keys)))
       \<and> (distinct keys \<longrightarrow> (\<exists>t. mktree_vp keys max_linear = Inr t))"
proof (intro conjI allI impI)
  obtain t where t: "mktree_bk keys max_linear = Inr t"
    using mktree_bk_built [OF assms(1)] by blast
  have r: "bk_result b t ref 0 = matches ref 0 (bk_keys t)"
    by (rule bk_result_eq) (simp_all add: bk_stored(1) [OF t])
  show "\<exists>t. mktree_bk keys max_linear = Inr t
            \<and> set (bk_result b t ref 0) = set (filter (\<lambda>k. k = ref) keys)
            \<and> mset (bk_result b t ref 0) \<subseteq># mset (filter (\<lambda>k. k = ref) keys)
            \<and> (distinct keys \<longrightarrow> mset (bk_result b t ref 0) = mset (filter (\<lambda>k. k = ref) keys))"
    using t matches_stored [OF bk_stored(2,3) [OF t], of ref 0]
    by (simp add: r matches_0)
next
  fix t assume t: "mktree_vp keys max_linear = Inr t"
  have r: "vp_result b t ref 0 = matches ref 0 (vp_keys t)"
    by (rule vp_result_eq) (simp_all add: vp_stored(1) [OF t])
  note m = matches_stored [OF vp_stored(2,3) [OF t], of ref 0]
  show "set (vp_result b t ref 0) = set (filter (\<lambda>k. k = ref) keys)"
    using m by (simp add: r matches_0)
  show "mset (vp_result b t ref 0) \<subseteq># mset (filter (\<lambda>k. k = ref) keys)"
    using m by (simp add: r matches_0)
  show "mset (vp_result b t ref 0) = mset (filter (\<lambda>k. k = ref) keys)" if "distinct keys"
    using m that by (simp add: r matches_0)
next
  assume "distinct keys"
  then show "\<exists>t. mktree_vp keys max_linear = Inr t"
    using assms(1) by (intro mktree_vp_distinct)
qed

theorem exact_match_query_witness:
  "[0, 1, 3, 7 :: bkey] \<noteq> [] \<and> distinct [0, 1, 3, 7 :: bkey]
   \<and> (\<exists>t. mktree_bk [0, 1, 3, 7] 1 = Inr t \<and> mset (bk_result b0 t 3 0) = mset [3])
   \<and> (\<exists>t. mktree_vp [0, 1, 3, 7] 1 = Inr t \<and> mset (vp_result b0 t 3 0) = mset [3])"
proof -
  have 1: "[0, 1, 3, 7 :: bkey] \<noteq> []" by simp
  have 2: "filter (\<lambda>k. k = 3) [0, 1, 3, 7 :: bkey] = [3]" by simp
  from exact_match_query [OF 1, of 1 b0 3] distinct_0137 1
  show ?thesis unfolding 2 by blast
qed

theorem exact_match_query_counterexample:
  "mktree_bk [5, 5] 1 = Inr (BK_Node 5 [])
   \<and> bk_result b0 (BK_Node 5 []) 5 0 = [5]
   \<and> filter (\<lambda>k. k = 5) [5, 5 :: bkey] = [5, 5]
   \<and> mset (bk_result b0 (BK_Node 5 []) 5 0) \<noteq> mset (filter (\<lambda>k. k = 5) [5, 5 :: bkey])"
proof -
  have "bk_result b0 (BK_Node 5 []) 5 0 = [5]"
    by (simp only: bk_result_def appended_def query_bk_5_5) (simp add: b0_def)
  then show ?thesis using mktree_bk_5_5 by simp
qed

section \<open>Leaf sizes\<close>

text \<open>
  Claim C9.  In every tree returned by \<open>mktree_bk\<close> or \<open>mktree_vp\<close>, every leaf holds at least one
  key and at most \<open>max_linear\<close> keys unless it holds exactly one; for \<open>max_linear \<le> 1\<close> every leaf
  holds exactly one key; and the root is a leaf iff the size \<open>n\<close> of its range satisfies
  \<open>n \<le> max_linear\<close> or \<open>n \<le> 1\<close>.
\<close>

theorem leaf_size_bound:
  "(\<forall>t. mktree_bk keys max_linear = Inr t \<longrightarrow>
        (\<forall>l\<in>set (bk_leaves t). 1 \<le> length l \<and> (length l \<le> max_linear \<or> length l = 1))
      \<and> (max_linear \<le> 1 \<longrightarrow> (\<forall>l\<in>set (bk_leaves t). length l = 1))
      \<and> ((\<exists>l. t = BK_Leaf l) \<longleftrightarrow> length keys \<le> max_linear \<or> length keys \<le> 1))
   \<and> (\<forall>t. mktree_vp keys max_linear = Inr t \<longrightarrow>
        (\<forall>l\<in>set (vp_leaves t). 1 \<le> length l \<and> (length l \<le> max_linear \<or> length l = 1))
      \<and> (max_linear \<le> 1 \<longrightarrow> (\<forall>l\<in>set (vp_leaves t). length l = 1))
      \<and> ((\<exists>l. t = VP_Leaf l) \<longleftrightarrow> length keys \<le> max_linear \<or> length keys \<le> 1))"
proof (intro conjI allI impI)
  fix t assume "mktree_bk keys max_linear = Inr t"
  then have b: "bk_built keys max_linear t" by (simp add: mktree_bk_Inr)
  then have l: "\<forall>l\<in>set (bk_leaves t). leaf_ok max_linear l"
    by (simp add: bk_built_def list_all_iff)
  show "\<forall>l\<in>set (bk_leaves t). 1 \<le> length l \<and> (length l \<le> max_linear \<or> length l = 1)"
    using l by (simp add: leaf_ok_def)
  show "\<forall>l\<in>set (bk_leaves t). length l = 1" if "max_linear \<le> 1"
    using l that by (fastforce simp: leaf_ok_def)
  show "(\<exists>l. t = BK_Leaf l) \<longleftrightarrow> length keys \<le> max_linear \<or> length keys \<le> 1"
    using b by (simp add: bk_built_def)
next
  fix t assume "mktree_vp keys max_linear = Inr t"
  then have b: "vp_built keys max_linear t" by (rule mktree_vp_built)
  then have l: "\<forall>l\<in>set (vp_leaves t). leaf_ok max_linear l"
    by (simp add: vp_built_def list_all_iff)
  show "\<forall>l\<in>set (vp_leaves t). 1 \<le> length l \<and> (length l \<le> max_linear \<or> length l = 1)"
    using l by (simp add: leaf_ok_def)
  show "\<forall>l\<in>set (vp_leaves t). length l = 1" if "max_linear \<le> 1"
    using l that by (fastforce simp: leaf_ok_def)
  show "(\<exists>l. t = VP_Leaf l) \<longleftrightarrow> length keys \<le> max_linear \<or> length keys \<le> 1"
    using b by (simp add: vp_built_def)
qed

theorem leaf_size_bound_witness:
  "mktree_bk [0, 1] 1 = Inr (BK_Node 0 [(1, BK_Leaf [1])])
   \<and> mktree_vp [5, 5, 6] 1 = Inr (VP_Node 1 5 None (Some (VP_Leaf [6])))
   \<and> list_all (\<lambda>l. length l = 1) (bk_leaves (BK_Node 0 [(1, BK_Leaf [1])]))
   \<and> list_all (\<lambda>l. length l = 1) (vp_leaves (VP_Node 1 5 None (Some (VP_Leaf [6]))))
   \<and> \<not> (length [0, 1 :: bkey] \<le> 1 \<or> length [0, 1 :: bkey] \<le> 1)"
  using leaf_size_bound [of "[0, 1]" 1] leaf_size_bound [of "[5, 5, 6]" 1] mktree_bk_0_1 mktree_vp_5_5_6
  by (simp add: list_all_iff)

section \<open>The threshold loop may leave the histogram\<close>

text \<open>
  Claim C10.  The threshold loop of \<open>mktree_vp\<close> does not always end with \<open>k\<close> in \<open>[1, 32]\<close>.  For
  the range \<open>[5, 5]\<close> with \<open>max_linear = 1\<close> the only remaining key equals the vantage, every
  cumulative count is 1 and the median is 1, so no count exceeds it: the loop ends with
  \<open>k = 33\<close> and the code goes on to read \<^verbatim>\<open>dcnt[33]\<close>, past the 33 entries of the array.
\<close>

theorem vp_threshold_out_of_bounds:
  "vp_scan (dcnt_of 5 [5]) (dcnt_of 5 [5] ! 0 + (length [5 :: bkey] - dcnt_of 5 [5] ! 0) div 2) 1
     = MAX_DISTANCE + 1
   \<and> vp_threshold (dcnt_of 5 [5]) (length [5 :: bkey]) = Inl OutOfBounds
   \<and> mktree_vp [5, 5] 1 = Inl OutOfBounds"
proof -
  have v: "dcnt_of 5 [5] ! j = 1" if "j \<le> MAX_DISTANCE" for j
    using that by (simp add: dcnt_of_nth distance_5_5)
  have "vp_scan (dcnt_of 5 [5]) (dcnt_of 5 [5] ! 0 + (length [5 :: bkey] - dcnt_of 5 [5] ! 0) div 2) 1
      = Suc MAX_DISTANCE"
    by (rule vp_scan_none) (simp add: v)
  then show ?thesis using mktree_vp_5_5
    by (simp add: vp_threshold_def Let_def del: One_nat_def)
qed

end
